theory Spec2Isabelle
  imports Main "HOL-Library.Sublist"
begin

section \<open>Data model of stackGraph.ts\<close>

text \<open>
  The debug adapter's \<open>Source\<close> object. The builder only ever reads \<open>path\<close>; the display
  name stands for the other fields the object carries along. Both are optional.
\<close>

record Source =
  path :: "string option"
  sourceName :: "string option"

text \<open>
  A raw frame as the builder receives it (an element of \<open>ThreadData.frames\<close>, typed
  \<open>any\<close> in the source): \<open>id\<close>, \<open>name\<close>, the optional \<open>source\<close>, \<open>line\<close> and
  \<open>column\<close>. The frames of the unit tests carry no \<open>id\<close>, so it is optional.
  Line, column and ids are integer-valued JavaScript numbers.
\<close>

record RawFrame =
  f_id :: "int option"
  f_name :: string
  f_source :: "Source option"
  f_line :: int
  f_column :: int

text \<open>Interface \<open>StackFrame\<close>: the same fields and the list \<open>threadIds\<close>.\<close>

record StackFrame = RawFrame +
  f_threadIds :: "int list"

text \<open>Interface \<open>GraphNode\<close> (the rendering coordinates are never set by the builder).\<close>

datatype GraphNode =
  GraphNode (n_id: string) (n_frame: StackFrame) (n_children: "GraphNode list")
            (n_threadIds: "int list") (n_threadNames: "string list")

text \<open>Interface \<open>ThreadData\<close>.\<close>

record ThreadData =
  t_id :: int
  t_name :: string
  t_frames :: "RawFrame list"

section \<open>Strings\<close>

text \<open>
  A template literal renders an integer-valued number in decimal, with a leading minus
  sign when negative.
\<close>

fun showNat :: "nat \<Rightarrow> string" where
  "showNat n = (if n < 10 then [''0123456789'' ! n]
                else showNat (n div 10) @ [''0123456789'' ! (n mod 10)])"

declare showNat.simps [simp del]

definition showInt :: "int \<Rightarrow> string" where
  "showInt i = (if i < 0 then CHR ''-'' # showNat (nat (- i)) else showNat (nat i))"

text \<open>\<open>hay.includes(needle)\<close> on strings: \<open>needle\<close> occurs as a contiguous piece of \<open>hay\<close>.\<close>

fun includes_str :: "string \<Rightarrow> string \<Rightarrow> bool" where
  "includes_str [] needle = (needle = [])"
| "includes_str (c # cs) needle = (prefix needle (c # cs) \<or> includes_str cs needle)"

definition splitMarker :: string where
  "splitMarker = ''::split::''"

section \<open>Frame identity\<close>

text \<open>\<open>f.source?.path\<close>: undefined when the source or its path is absent.\<close>

definition sourcePath :: "'a RawFrame_scheme \<Rightarrow> string option" where
  "sourcePath f = (case f_source f of None \<Rightarrow> None | Some s \<Rightarrow> path s)"

text \<open>Function \<open>isSameFrame\<close>; \<open>===\<close> on two optional strings is equality of options.\<close>

definition isSameFrame :: "'a RawFrame_scheme \<Rightarrow> 'b RawFrame_scheme \<Rightarrow> bool" where
  "isSameFrame f1 f2 =
     (f_name f1 = f_name f2 \<and>
      f_line f1 = f_line f2 \<and>
      f_column f1 = f_column f2 \<and>
      sourcePath f1 = sourcePath f2)"

text \<open>An undefined value inside a template literal is rendered as the word \<open>undefined\<close>.\<close>

definition showPath :: "string option \<Rightarrow> string" where
  "showPath p = (case p of None \<Rightarrow> ''undefined'' | Some s \<Rightarrow> s)"

text \<open>The canonical id of \<open>buildGraph\<close>, line 99.\<close>

definition canonicalId :: "'a RawFrame_scheme \<Rightarrow> string" where
  "canonicalId frame =
     showPath (sourcePath frame) @ '':'' @ showInt (f_line frame) @ '':'' @
     showInt (f_column frame) @ '':'' @ f_name frame"

section \<open>The graph builder\<close>

text \<open>
  Lines 133 to 140: the thread joins the node's membership lists unless its id is there
  already; the node's own lists and the list on its frame are tested separately.
\<close>

definition addThread :: "ThreadData \<Rightarrow> GraphNode \<Rightarrow> GraphNode" where
  "addThread thread node =
     (let ids = (if t_id thread \<in> set (n_threadIds node) then n_threadIds node
                 else n_threadIds node @ [t_id thread]);
          names = (if t_id thread \<in> set (n_threadIds node) then n_threadNames node
                   else n_threadNames node @ [t_name thread]);
          fr = n_frame node;
          fids = (if t_id thread \<in> set (f_threadIds fr) then f_threadIds fr
                  else f_threadIds fr @ [t_id thread])
      in GraphNode (n_id node) (fr\<lparr>f_threadIds := fids\<rparr>) (n_children node) ids names)"

text \<open>Lines 114 to 129: the node created for a frame, before the thread is added.\<close>

definition newNode :: "bool \<Rightarrow> ThreadData \<Rightarrow> RawFrame \<Rightarrow> GraphNode" where
  "newNode shouldSplit thread frame =
     (let nodeId = (if shouldSplit
                    then canonicalId frame @ splitMarker @ showInt (t_id thread)
                    else canonicalId frame)
      in GraphNode nodeId
           \<lparr>f_id = f_id frame, f_name = f_name frame, f_source = f_source frame,
            f_line = f_line frame, f_column = f_column frame, f_threadIds = []\<rparr>
           [] [] [])"

text \<open>The predicate given to \<open>find\<close> on line 109.\<close>

definition reusable :: "RawFrame \<Rightarrow> GraphNode \<Rightarrow> bool" where
  "reusable frame n = (isSameFrame (n_frame n) frame \<and> \<not> includes_str (n_id n) splitMarker)"

text \<open>
  The node with its \<open>children\<close> array replaced, every other field as it was: what the
  node looks like once the cursor has worked on its children.
\<close>

definition setChildren :: "GraphNode \<Rightarrow> GraphNode list \<Rightarrow> GraphNode" where
  "setChildren node cs =
     GraphNode (n_id node) (n_frame node) cs (n_threadIds node) (n_threadNames node)"

text \<open>
  The inner loop (lines 97 to 144) for one thread. The source keeps a cursor
  \<open>currentLevelNodes\<close> that points at a sibling array inside the forest and mutates the
  node it finds or pushes; since every array has one owner, the model returns the
  sibling list with that node replaced (\<open>find\<close> yields the first match, which
  \<open>List.extract\<close> singles out) or appended, and the descent of the cursor into
  \<open>node.children\<close> is the recursive call on the node's children.
\<close>

fun addFrames :: "string list \<Rightarrow> ThreadData \<Rightarrow> RawFrame list \<Rightarrow> GraphNode list \<Rightarrow> GraphNode list" where
  "addFrames splitNodes thread [] currentLevelNodes = currentLevelNodes"
| "addFrames splitNodes thread (frame # rest) currentLevelNodes =
     (let shouldSplit = (canonicalId frame \<in> set splitNodes);
          found = (if shouldSplit then None
                   else List.extract (reusable frame) currentLevelNodes)
      in case found of
           None \<Rightarrow>
             (let node = addThread thread (newNode shouldSplit thread frame)
              in currentLevelNodes @
                   [setChildren node (addFrames splitNodes thread rest (n_children node))])
         | Some (before, n, after) \<Rightarrow>
             (let node = addThread thread n
              in before @
                   [setChildren node (addFrames splitNodes thread rest (n_children node))] @
                   after))"

text \<open>The outer loop (lines 92 to 147): threads in input order, from an empty root list.\<close>

definition buildGraph :: "ThreadData list \<Rightarrow> string list \<Rightarrow> GraphNode list" where
  "buildGraph threadsData splitNodes =
     foldl (\<lambda>rootNodes thread. addFrames splitNodes thread (t_frames thread) rootNodes)
       [] threadsData"

section \<open>The graph builder over an explicit store\<close>

text \<open>
  \<open>buildGraph\<close> works by mutation: it pushes onto the array the cursor points at and onto
  the membership lists of the node it found or created. What repeated invocations can
  see of each other, and whether an invocation changes the objects it was given, is a
  question about the objects that exist when the function is entered, so the same lines
  are embedded a second time with these objects in an explicit store.

  The store holds the thread objects and the frame objects of the snapshot, the node
  objects, and the arrays of nodes (\<open>rootNodes\<close> and every \<open>children\<close>), each addressed by a
  number; \<open>nextRef\<close> is the next number an allocation hands out. The object literal of
  lines 116 to 129 allocates a node together with its \<open>children\<close> array, and the two get
  the same number in \<open>nodeObjs\<close> and in \<open>arrays\<close>. A node holds its id, its frame (the new
  object of lines 118 to 125, which no one else refers to), the reference to its
  \<open>children\<close> array and its two membership lists (new arrays that are reached through the
  node only). A thread object holds its id, its name and references to its frames; the
  arrays \<open>threadsData\<close>, \<open>thread.frames\<close> and \<open>splitNodes\<close> are only iterated and searched.
\<close>

record NodeObj =
  o_id :: string
  o_frame :: StackFrame
  o_children :: nat
  o_threadIds :: "int list"
  o_threadNames :: "string list"

record ThreadObj =
  r_id :: int
  r_name :: string
  r_frames :: "nat list"

record store =
  threadObjs :: "nat \<Rightarrow> ThreadObj"
  frameObjs :: "nat \<Rightarrow> RawFrame"
  nodeObjs :: "nat \<Rightarrow> NodeObj"
  arrays :: "nat \<Rightarrow> nat list"
  nextRef :: nat

text \<open>The array literal \<open>[]\<close> (lines 92 and 126) and \<open>Array.prototype.push\<close> (line 130).\<close>

definition newArray :: "store \<Rightarrow> nat \<times> store" where
  "newArray h = (nextRef h, h\<lparr>arrays := (arrays h)(nextRef h := []), nextRef := Suc (nextRef h)\<rparr>)"

definition push :: "nat \<Rightarrow> nat \<Rightarrow> store \<Rightarrow> store" where
  "push array x h = h\<lparr>arrays := (arrays h)(array := arrays h array @ [x])\<rparr>"

text \<open>Lines 111 to 131: the new node, pushed onto the array the cursor points at.\<close>

definition createNode :: "bool \<Rightarrow> string \<Rightarrow> ThreadObj \<Rightarrow> RawFrame \<Rightarrow> nat \<Rightarrow> store \<Rightarrow> nat \<times> store" where
  "createNode shouldSplit cid thread frame currentLevelNodes h =
     (let nodeId = (if shouldSplit then cid @ splitMarker @ showInt (r_id thread) else cid);
          (node, h1) = newArray h;
          h2 = h1\<lparr>nodeObjs := (nodeObjs h1)(node :=
                 \<lparr>o_id = nodeId,
                  o_frame = \<lparr>f_id = f_id frame, f_name = f_name frame, f_source = f_source frame,
                             f_line = f_line frame, f_column = f_column frame, f_threadIds = []\<rparr>,
                  o_children = node, o_threadIds = [], o_threadNames = []\<rparr>)\<rparr>
      in (node, push currentLevelNodes node h2))"

text \<open>Lines 133 to 140, on the node object and then in the store.\<close>

definition addThreadObj :: "ThreadObj \<Rightarrow> NodeObj \<Rightarrow> NodeObj" where
  "addThreadObj thread node =
     (let node1 = (if r_id thread \<in> set (o_threadIds node) then node
                   else node\<lparr>o_threadIds := o_threadIds node @ [r_id thread],
                             o_threadNames := o_threadNames node @ [r_name thread]\<rparr>);
          fr = o_frame node1
      in if r_id thread \<in> set (f_threadIds fr) then node1
         else node1\<lparr>o_frame := fr\<lparr>f_threadIds := f_threadIds fr @ [r_id thread]\<rparr>\<rparr>)"

definition addThreadTo :: "nat \<Rightarrow> ThreadObj \<Rightarrow> store \<Rightarrow> store" where
  "addThreadTo node thread h =
     h\<lparr>nodeObjs := (nodeObjs h)(node := addThreadObj thread (nodeObjs h node))\<rparr>"

text \<open>Line 109: the predicate given to \<open>find\<close>, and the search unless the frame is split.\<close>

definition reusableObj :: "RawFrame \<Rightarrow> NodeObj \<Rightarrow> bool" where
  "reusableObj frame n = (isSameFrame (o_frame n) frame \<and> \<not> includes_str (o_id n) splitMarker)"

definition findReusable :: "bool \<Rightarrow> RawFrame \<Rightarrow> nat \<Rightarrow> store \<Rightarrow> nat option" where
  "findReusable shouldSplit frame currentLevelNodes h =
     (if shouldSplit then None
      else List.find (\<lambda>n. reusableObj frame (nodeObjs h n)) (arrays h currentLevelNodes))"

text \<open>
  The body of the inner loop (lines 98 to 143) for one frame: the state is the store and
  the cursor \<open>currentLevelNodes\<close>, which leaves as \<open>node.children\<close>.
\<close>

fun processFrame :: "string list \<Rightarrow> nat \<Rightarrow> store \<times> nat \<Rightarrow> nat \<Rightarrow> store \<times> nat" where
  "processFrame splitNodes threadRef (h, currentLevelNodes) frameRef =
     (let thread = threadObjs h threadRef;
          frame = frameObjs h frameRef;
          cid = canonicalId frame;
          shouldSplit = (cid \<in> set splitNodes);
          (node, h1) = (case findReusable shouldSplit frame currentLevelNodes h of
                          None \<Rightarrow> createNode shouldSplit cid thread frame currentLevelNodes h
                        | Some n \<Rightarrow> (n, h));
          h2 = addThreadTo node thread h1
      in (h2, o_children (nodeObjs h2 node)))"

text \<open>
  The body of the outer loop (lines 95 to 144) for one thread, the cursor starting at
  \<open>rootNodes\<close>; and the function, which returns the reference to \<open>rootNodes\<close> and the store
  it leaves behind.
\<close>

definition threadLoop :: "string list \<Rightarrow> nat \<Rightarrow> store \<Rightarrow> nat \<Rightarrow> store" where
  "threadLoop splitNodes rootNodes h threadRef =
     fst (foldl (processFrame splitNodes threadRef) (h, rootNodes)
            (r_frames (threadObjs h threadRef)))"

definition buildGraphS :: "nat list \<Rightarrow> string list \<Rightarrow> store \<Rightarrow> nat \<times> store" where
  "buildGraphS threadsData splitNodes h =
     (let (rootNodes, h0) = newArray h
      in (rootNodes, foldl (threadLoop splitNodes rootNodes) h0 threadsData))"

text \<open>
  What a caller sees when it follows the references from an array of nodes: the forest
  as a value, down to \<open>k\<close> levels below the array's nodes. Two arrays that read the same at
  every depth hold structurally identical forests.
\<close>

fun readNode :: "nat \<Rightarrow> store \<Rightarrow> nat \<Rightarrow> GraphNode" where
  "readNode 0 h n =
     GraphNode (o_id (nodeObjs h n)) (o_frame (nodeObjs h n)) []
       (o_threadIds (nodeObjs h n)) (o_threadNames (nodeObjs h n))"
| "readNode (Suc k) h n =
     GraphNode (o_id (nodeObjs h n)) (o_frame (nodeObjs h n))
       (map (readNode k h) (arrays h (o_children (nodeObjs h n))))
       (o_threadIds (nodeObjs h n)) (o_threadNames (nodeObjs h n))"

definition readForest :: "nat \<Rightarrow> store \<Rightarrow> nat \<Rightarrow> GraphNode list" where
  "readForest k h array = map (readNode k h) (arrays h array)"

section \<open>Properties of forests\<close>

text \<open>A property holds of a node and of every node below it; of every node of a forest.\<close>

fun node_all :: "(GraphNode \<Rightarrow> bool) \<Rightarrow> GraphNode \<Rightarrow> bool" where
  "node_all P (GraphNode i fr cs ids names) =
     (P (GraphNode i fr cs ids names) \<and> list_all (node_all P) cs)"

definition forest_all :: "(GraphNode \<Rightarrow> bool) \<Rightarrow> GraphNode list \<Rightarrow> bool" where
  "forest_all P nodes = list_all (node_all P) nodes"

section \<open>Notions used to state the properties\<close>

text \<open>
  The data of a frame that the builder copies into a node: everything but the
  membership list.
\<close>

definition sameFrameData :: "'a RawFrame_scheme \<Rightarrow> 'b RawFrame_scheme \<Rightarrow> bool" where
  "sameFrameData a b =
     (f_id a = f_id b \<and> f_name a = f_name b \<and> f_source a = f_source b \<and>
      f_line a = f_line b \<and> f_column a = f_column b)"

text \<open>
  \<open>keptForest old new\<close>: every node of \<open>old\<close> is still in \<open>new\<close> at the same place, with
  the same id and the same frame data, and so are its descendants; \<open>new\<close> may have
  more siblings at the end of any sibling list, and other membership lists.
\<close>

fun keptNode :: "GraphNode \<Rightarrow> GraphNode \<Rightarrow> bool"
  and keptForest :: "GraphNode list \<Rightarrow> GraphNode list \<Rightarrow> bool" where
  "keptNode (GraphNode i fr cs ids names) n' =
     (n_id n' = i \<and> sameFrameData (n_frame n') fr \<and> keptForest cs (n_children n'))"
| "keptForest [] new = True"
| "keptForest (n # ns) [] = False"
| "keptForest (n # ns) (m # ms) = (keptNode n m \<and> keptForest ns ms)"

text \<open>
  The nodes at depth \<open>d\<close> of a forest, left to right (the roots are at depth 0).
\<close>

fun level :: "nat \<Rightarrow> GraphNode list \<Rightarrow> GraphNode list" where
  "level 0 ns = ns"
| "level (Suc d) ns = level d (concat (map n_children ns))"

text \<open>
  What \<open>isSameFrame\<close> compares, as a tuple; and the property of a sibling list that no
  two of its nodes without the split marker in their id have the same tuple.
\<close>

definition frameKey :: "'a RawFrame_scheme \<Rightarrow> string \<times> int \<times> int \<times> string option" where
  "frameKey f = (f_name f, f_line f, f_column f, sourcePath f)"

definition distinctSiblings :: "GraphNode list \<Rightarrow> bool" where
  "distinctSiblings ns =
     distinct (map (\<lambda>n. frameKey (n_frame n))
                 (filter (\<lambda>n. \<not> includes_str (n_id n) splitMarker) ns))"

text \<open>
  The same property read on the identities of the nodes: a node is not a split node when
  its id is the canonical id of its frame, without the suffix of marker and thread id,
  and no two such siblings have the same id.
\<close>

definition nonSplitNode :: "GraphNode \<Rightarrow> bool" where
  "nonSplitNode n = (n_id n = canonicalId (n_frame n))"

definition distinctSiblingIds :: "GraphNode list \<Rightarrow> bool" where
  "distinctSiblingIds ns = distinct (map n_id (filter nonSplitNode ns))"

text \<open>
  The node pushed for a frame whose canonical id is in the split set, with the children
  it ends up with.
\<close>

definition splitNode :: "ThreadData \<Rightarrow> RawFrame \<Rightarrow> GraphNode list \<Rightarrow> GraphNode" where
  "splitNode thread frame cs =
     GraphNode (canonicalId frame @ splitMarker @ showInt (t_id thread))
       \<lparr>f_id = f_id frame, f_name = f_name frame, f_source = f_source frame,
        f_line = f_line frame, f_column = f_column frame, f_threadIds = [t_id thread]\<rparr>
       cs [t_id thread] [t_name thread]"

text \<open>
  All root-to-node chains of a forest, each as the list of its nodes from the root down.
\<close>

fun nodeChains :: "GraphNode \<Rightarrow> GraphNode list list" where
  "nodeChains (GraphNode i fr cs ids names) =
     [GraphNode i fr cs ids names] #
     map ((#) (GraphNode i fr cs ids names)) (concat (map nodeChains cs))"

definition chains :: "GraphNode list \<Rightarrow> GraphNode list list" where
  "chains forest = concat (map nodeChains forest)"

text \<open>
  A thread's frame sequence passes through a chain of nodes when it is at least as long
  as the chain and, depth by depth, its frame is the node's: for a frame whose canonical
  id is in the split set the node is the split node of this thread, otherwise the node
  has the frame's canonical id as its identity and the same frame for \<open>isSameFrame\<close>.
  \<open>threadsThrough\<close> lists the ids of the input threads that pass through a chain.
\<close>

definition frameEntersNode :: "string list \<Rightarrow> ThreadData \<Rightarrow> RawFrame \<Rightarrow> GraphNode \<Rightarrow> bool" where
  "frameEntersNode sp th f n =
     (if canonicalId f \<in> set sp
      then n_id n = canonicalId f @ splitMarker @ showInt (t_id th)
      else n_id n = canonicalId f \<and> isSameFrame (n_frame n) f)"

definition passes :: "string list \<Rightarrow> ThreadData \<Rightarrow> RawFrame list \<Rightarrow> GraphNode list \<Rightarrow> bool" where
  "passes sp th fs chain =
     (length chain \<le> length fs \<and> list_all2 (frameEntersNode sp th) (take (length chain) fs) chain)"

definition passesThrough :: "string list \<Rightarrow> ThreadData \<Rightarrow> GraphNode list \<Rightarrow> bool" where
  "passesThrough sp th chain = passes sp th (t_frames th) chain"

definition threadsThrough :: "string list \<Rightarrow> ThreadData list \<Rightarrow> GraphNode list \<Rightarrow> int list" where
  "threadsThrough sp ts chain = map t_id (filter (\<lambda>t. passesThrough sp t chain) ts)"

text \<open>
  A forest that is a single chain: one root, and one child at every node but the last.
\<close>

fun isChain :: "GraphNode list \<Rightarrow> bool" where
  "isChain [] = True"
| "isChain [GraphNode i fr cs ids names] = isChain cs"
| "isChain (n # m # ns) = False"

text \<open>
  The second store has every node and every array of the first that is numbered below
  \<open>n\<close> as it was, and the thread and frame objects as they were; nothing was deallocated.
\<close>

definition sameBelow :: "nat \<Rightarrow> store \<Rightarrow> store \<Rightarrow> bool" where
  "sameBelow n h h' =
     ((\<forall>x < n. nodeObjs h' x = nodeObjs h x \<and> arrays h' x = arrays h x) \<and>
      threadObjs h' = threadObjs h \<and> frameObjs h' = frameObjs h \<and> nextRef h \<le> nextRef h')"

section \<open>Invariants used in the proofs\<close>

text \<open>
  The input condition under which the marker test of line 109 does what it is meant to
  do: a frame that is not split has no split marker inside its canonical id.
\<close>

definition noMarkerUnlessSplit :: "string list \<Rightarrow> RawFrame list \<Rightarrow> bool" where
  "noMarkerUnlessSplit sp fs =
     list_all (\<lambda>f. canonicalId f \<in> set sp \<or> \<not> includes_str (canonicalId f) splitMarker) fs"

text \<open>
  A forest that is one chain whose nodes have the given frame tuples, top down, and all
  the same member set.
\<close>

fun chainOf :: "(string \<times> int \<times> int \<times> string option) list \<Rightarrow> int set \<Rightarrow> GraphNode list \<Rightarrow> bool" where
  "chainOf [] S nodes = (nodes = [])"
| "chainOf (k # ks) S nodes =
     (case nodes of
        [n] \<Rightarrow> frameKey (n_frame n) = k \<and> \<not> includes_str (n_id n) splitMarker \<and>
               set (n_threadIds n) = S \<and> chainOf ks S (n_children n)
      | _ \<Rightarrow> False)"

text \<open>
  Threads are followed down the forest together with the frames they have left:
  \<open>descend sp n W\<close> keeps the threads of \<open>W\<close> whose next frame enters the node \<open>n\<close>, and
  drops that frame. \<open>membNode\<close> says that the members of a node and of all nodes below it
  are the threads that arrive there.
\<close>

definition descend :: "string list \<Rightarrow> GraphNode \<Rightarrow> (ThreadData \<times> RawFrame list) list \<Rightarrow> (ThreadData \<times> RawFrame list) list" where
  "descend sp n W =
     map (\<lambda>(t, fs). (t, tl fs)) (filter (\<lambda>(t, fs). fs \<noteq> [] \<and> frameEntersNode sp t (hd fs) n) W)"

fun membNode :: "string list \<Rightarrow> (ThreadData \<times> RawFrame list) list \<Rightarrow> GraphNode \<Rightarrow> bool" where
  "membNode sp W (GraphNode i fr cs ids names) =
     (set ids = (\<lambda>(t, fs). t_id t) ` set (descend sp (GraphNode i fr cs ids names) W) \<and>
      list_all (membNode sp (descend sp (GraphNode i fr cs ids names) W)) cs)"

text \<open>
  Every thread whose next frame is not split finds a sibling to reuse (\<open>complTop\<close>);
  \<open>invNode\<close> adds this to \<open>membNode\<close> at every sibling list that can still change, the
  ones that are not below a node with the marker in its id.
\<close>

definition complTop :: "string list \<Rightarrow> (ThreadData \<times> RawFrame list) list \<Rightarrow> GraphNode list \<Rightarrow> bool" where
  "complTop sp W nodes =
     list_all (\<lambda>(t, fs). fs \<noteq> [] \<and> canonicalId (hd fs) \<notin> set sp \<longrightarrow>
        list_ex (reusable (hd fs)) nodes) W"

fun invNode :: "string list \<Rightarrow> (ThreadData \<times> RawFrame list) list \<Rightarrow> GraphNode \<Rightarrow> bool" where
  "invNode sp W (GraphNode i fr cs ids names) =
     (set ids = (\<lambda>(t, fs). t_id t) ` set (descend sp (GraphNode i fr cs ids names) W) \<and>
      (if includes_str i splitMarker
       then list_all (membNode sp (descend sp (GraphNode i fr cs ids names) W)) cs
       else complTop sp (descend sp (GraphNode i fr cs ids names) W) cs \<and>
            list_all (invNode sp (descend sp (GraphNode i fr cs ids names) W)) cs))"

text \<open>
  What every node of a forest looks like when the input satisfies
  \<open>noMarkerUnlessSplit\<close>: it has a member; with the marker in its id it has exactly one
  member, whose id ends the node's id; without the marker its id is the canonical id of
  its frame.
\<close>

definition nodeOk :: "GraphNode \<Rightarrow> bool" where
  "nodeOk n =
     (n_threadIds n \<noteq> [] \<and>
      (if includes_str (n_id n) splitMarker
       then length (n_threadIds n) = 1 \<and>
            suffix (splitMarker @ showInt (hd (n_threadIds n))) (n_id n)
       else n_id n = canonicalId (n_frame n)))"

text \<open>
  Two runs of the builder that start in different stores allocate at different numbers:
  what the first numbers \<open>x\<close>, from \<open>nA\<close> on, the second numbers \<open>shiftRef nA nB x\<close>, from
  \<open>nB\<close> on. Two node objects are related when they agree but for this renumbering of
  their \<open>children\<close>. In a store that is closed from \<open>n\<close> on, the arrays allocated from \<open>n\<close> on
  hold nodes allocated from \<open>n\<close> on, whose \<open>children\<close> are arrays allocated from \<open>n\<close> on.
  Two stores simulate each other when, from \<open>nA\<close> on in the first and from \<open>nB\<close> on in the
  second, they hold the same arrays and nodes up to the renumbering, and the same thread
  and frame objects.
\<close>

definition shiftRef :: "nat \<Rightarrow> nat \<Rightarrow> nat \<Rightarrow> nat" where
  "shiftRef nA nB x = x - nA + nB"

definition nodeRel :: "(nat \<Rightarrow> nat) \<Rightarrow> NodeObj \<Rightarrow> NodeObj \<Rightarrow> bool" where
  "nodeRel f a b =
     (o_id b = o_id a \<and> o_frame b = o_frame a \<and> o_threadIds b = o_threadIds a \<and>
      o_threadNames b = o_threadNames a \<and> o_children b = f (o_children a))"

definition closedFrom :: "nat \<Rightarrow> store \<Rightarrow> bool" where
  "closedFrom n h =
     (\<forall>r a. n \<le> r \<and> r < nextRef h \<and> a \<in> set (arrays h r) \<longrightarrow>
        n \<le> a \<and> a < nextRef h \<and>
        n \<le> o_children (nodeObjs h a) \<and> o_children (nodeObjs h a) < nextRef h)"

definition sim :: "nat \<Rightarrow> nat \<Rightarrow> store \<Rightarrow> store \<Rightarrow> bool" where
  "sim nA nB hA hB =
     (nA \<le> nextRef hA \<and> nextRef hB = shiftRef nA nB (nextRef hA) \<and>
      threadObjs hB = threadObjs hA \<and> frameObjs hB = frameObjs hA \<and>
      closedFrom nA hA \<and>
      (\<forall>r. nA \<le> r \<and> r < nextRef hA \<longrightarrow>
         arrays hB (shiftRef nA nB r) = map (shiftRef nA nB) (arrays hA r) \<and>
         (\<forall>a \<in> set (arrays hA r).
            nodeRel (shiftRef nA nB) (nodeObjs hA a) (nodeObjs hB (shiftRef nA nB a)))))"

section \<open>The specification's reading of frame identity\<close>

text \<open>
  The specification describes \<open>sameFrame\<close> with an absent source path standing for the
  empty string. These two definitions follow its words, to be compared with
  \<open>isSameFrame\<close>.
\<close>

definition pathOrEmpty :: "'a RawFrame_scheme \<Rightarrow> string" where
  "pathOrEmpty f = (case sourcePath f of None \<Rightarrow> [] | Some p \<Rightarrow> p)"

definition sameFrame_spec :: "'a RawFrame_scheme \<Rightarrow> 'b RawFrame_scheme \<Rightarrow> bool" where
  "sameFrame_spec a b =
     (f_name a = f_name b \<and> f_line a = f_line b \<and> f_column a = f_column b \<and>
      pathOrEmpty a = pathOrEmpty b)"

section \<open>Inputs in the style of the unit tests\<close>

text \<open>
  A frame literal \<open>{ name, line, column, source: { path } }\<close> of the test suite (no
  \<open>source\<close> at all when the path is \<open>None\<close>), and a thread literal.
\<close>

definition mkFrame :: "string \<Rightarrow> int \<Rightarrow> int \<Rightarrow> string option \<Rightarrow> RawFrame" where
  "mkFrame n l c p =
     \<lparr>f_id = None, f_name = n,
      f_source = (case p of None \<Rightarrow> None | Some s \<Rightarrow> Some \<lparr>path = Some s, sourceName = None\<rparr>),
      f_line = l, f_column = c\<rparr>"

definition mkThread :: "int \<Rightarrow> string \<Rightarrow> RawFrame list \<Rightarrow> ThreadData" where
  "mkThread i n fs = \<lparr>t_id = i, t_name = n, t_frames = fs\<rparr>"

text \<open>
  The inputs of the two unit tests, two threads whose one frame is a function of a
  namespace called \<open>split\<close>, and two threads whose frames differ but have the same
  canonical id.
\<close>

definition identicalThreads :: "ThreadData list" where
  "identicalThreads =
     [mkThread 1 ''Thread 1''
        [(mkFrame ''main'' 1 1 (Some ''main.cpp''))\<lparr>f_id := Some 10\<rparr>,
         (mkFrame ''foo'' 10 1 (Some ''main.cpp''))\<lparr>f_id := Some 11\<rparr>,
         (mkFrame ''bar'' 20 1 (Some ''main.cpp''))\<lparr>f_id := Some 12\<rparr>],
      mkThread 2 ''Thread 2''
        [(mkFrame ''main'' 1 1 (Some ''main.cpp''))\<lparr>f_id := Some 20\<rparr>,
         (mkFrame ''foo'' 10 1 (Some ''main.cpp''))\<lparr>f_id := Some 21\<rparr>,
         (mkFrame ''bar'' 20 1 (Some ''main.cpp''))\<lparr>f_id := Some 22\<rparr>]]"

definition divergentThreads :: "ThreadData list" where
  "divergentThreads =
     [mkThread 1 ''T1'' [mkFrame ''A'' 1 1 (Some ''f''), mkFrame ''B'' 2 1 (Some ''f'')],
      mkThread 2 ''T2'' [mkFrame ''A'' 1 1 (Some ''f''), mkFrame ''C'' 3 1 (Some ''f'')]]"

definition markerThreads :: "ThreadData list" where
  "markerThreads =
     [mkThread 1 ''T1'' [mkFrame ''pool::split::run'' 1 1 (Some ''f'')],
      mkThread 2 ''T2'' [mkFrame ''pool::split::run'' 1 1 (Some ''f'')]]"

definition collidingThreads :: "ThreadData list" where
  "collidingThreads =
     [mkThread 1 ''T1'' [mkFrame ''3:x'' 1 2 (Some ''a'')],
      mkThread 2 ''T2'' [mkFrame ''x'' 2 3 (Some ''a:1'')]]"

text \<open>
  A snapshot laid out in a store that holds nothing else: thread \<open>t\<close> of the list is the
  thread object number \<open>t\<close>, and the frames are numbered in the order of the snapshot.
\<close>

definition emptyStore :: store where
  "emptyStore =
     \<lparr>threadObjs = (\<lambda>_. \<lparr>r_id = 0, r_name = [], r_frames = []\<rparr>),
      frameObjs = (\<lambda>_. mkFrame [] 0 0 None),
      nodeObjs = (\<lambda>_. \<lparr>o_id = [],
                        o_frame = \<lparr>f_id = None, f_name = [], f_source = None, f_line = 0,
                                   f_column = 0, f_threadIds = []\<rparr>,
                        o_children = 0, o_threadIds = [], o_threadNames = []\<rparr>),
      arrays = (\<lambda>_. []),
      nextRef = 0\<rparr>"

fun storeFrames :: "nat \<Rightarrow> RawFrame list \<Rightarrow> store \<Rightarrow> store" where
  "storeFrames a [] h = h"
| "storeFrames a (f # fs) h = storeFrames (Suc a) fs (h\<lparr>frameObjs := (frameObjs h)(a := f)\<rparr>)"

fun storeThreads :: "nat \<Rightarrow> nat \<Rightarrow> ThreadData list \<Rightarrow> store \<Rightarrow> store" where
  "storeThreads t a [] h = h"
| "storeThreads t a (th # ths) h =
     storeThreads (Suc t) (a + length (t_frames th)) ths
       ((storeFrames a (t_frames th) h)
          \<lparr>threadObjs := (threadObjs h)(t := \<lparr>r_id = t_id th, r_name = t_name th,
              r_frames = [a ..< a + length (t_frames th)]\<rparr>)\<rparr>)"

definition snapshotStore :: "ThreadData list \<Rightarrow> store" where
  "snapshotStore ths = storeThreads 0 0 ths emptyStore"

text \<open>
  Two threads with the same single frame, their store, and a store with the same
  snapshot in which an array and a node had been allocated before.
\<close>

definition tinyThreads :: "ThreadData list" where
  "tinyThreads = [mkThread 1 ''T1'' [mkFrame ''A'' 1 1 (Some ''f'')],
                  mkThread 2 ''T2'' [mkFrame ''A'' 1 1 (Some ''f'')]]"

definition tinyStore :: store where
  "tinyStore = snapshotStore tinyThreads"

definition usedStore :: store where
  "usedStore = tinyStore\<lparr>arrays := (arrays tinyStore)(0 := [1]), nextRef := 2\<rparr>"

section \<open>Decimal rendering\<close>

lemma digit_nth_in: "n < 10 \<Longrightarrow> ''0123456789'' ! n \<in> set ''0123456789''"
  by (rule nth_mem) simp

lemma digit_inj: "a < 10 \<Longrightarrow> b < 10 \<Longrightarrow> ''0123456789'' ! a = ''0123456789'' ! b \<Longrightarrow> a = b"
proof -
  have d: "distinct ''0123456789''" by simp
  assume "a < 10" "b < 10" "''0123456789'' ! a = ''0123456789'' ! b"
  then show "a = b" using d by (simp add: nth_eq_iff_index_eq)
qed

lemma showNat_small: "n < 10 \<Longrightarrow> showNat n = [''0123456789'' ! n]"
  by (subst showNat.simps) simp

lemma showNat_big: "\<not> n < 10 \<Longrightarrow> showNat n = showNat (n div 10) @ [''0123456789'' ! (n mod 10)]"
  by (subst showNat.simps) simp

lemma showNat_nonempty: "showNat n \<noteq> []"
  by (cases "n < 10") (simp_all add: showNat_small showNat_big)

lemma showNat_digits: "set (showNat n) \<subseteq> set ''0123456789''"
proof (induction n rule: showNat.induct)
  case (1 n)
  show ?case
  proof (cases "n < 10")
    case True
    then show ?thesis using digit_nth_in[of n] by (simp add: showNat_small)
  next
    case False
    have "n mod 10 < 10" by simp
    then have "''0123456789'' ! (n mod 10) \<in> set ''0123456789''" by (rule digit_nth_in)
    with False 1 show ?thesis by (simp add: showNat_big)
  qed
qed

lemma showNat_inj: "showNat m = showNat n \<Longrightarrow> m = n"
proof (induction m arbitrary: n rule: showNat.induct)
  case (1 m)
  show ?case
  proof (cases "m < 10")
    case m: True
    show ?thesis
    proof (cases "n < 10")
      case True
      with m 1(2) show ?thesis by (simp add: showNat_small digit_inj)
    next
      case False
      with m 1(2) show ?thesis using showNat_nonempty[of "n div 10"]
        by (simp add: showNat_small showNat_big)
    qed
  next
    case m: False
    show ?thesis
    proof (cases "n < 10")
      case True
      with m 1(2) show ?thesis using showNat_nonempty[of "m div 10"]
        by (simp add: showNat_small showNat_big)
    next
      case False
      with m 1(2) have eq: "showNat (m div 10) = showNat (n div 10)"
        and d: "''0123456789'' ! (m mod 10) = ''0123456789'' ! (n mod 10)"
        by (simp_all add: showNat_big)
      from 1(1)[OF m eq] have "m div 10 = n div 10" .
      moreover from d have "m mod 10 = n mod 10" by (intro digit_inj) simp_all
      ultimately show ?thesis by (metis div_mult_mod_eq)
    qed
  qed
qed

lemma showInt_inj: "showInt i = showInt j \<Longrightarrow> i = j"
proof -
  have nd: "CHR ''-'' \<notin> set (showNat k)" for k using showNat_digits[of k] by auto
  have ne: "CHR ''-'' # showNat a \<noteq> showNat b" for a b
    using nd[of b] by (metis list.set_intros(1))
  assume a: "showInt i = showInt j"
  show ?thesis
  proof (cases "i < 0"; cases "j < 0")
    assume "i < 0" "j < 0"
    with a have "nat (- i) = nat (- j)" by (simp add: showInt_def showNat_inj)
    with \<open>i < 0\<close> \<open>j < 0\<close> show ?thesis by simp
  next
    assume "i < 0" "\<not> j < 0" with a ne show ?thesis by (simp add: showInt_def)
  next
    assume "\<not> i < 0" "j < 0" with a ne[of "nat (-j)" "nat i"] show ?thesis by (simp add: showInt_def)
  next
    assume "\<not> i < 0" "\<not> j < 0"
    with a have "nat i = nat j" by (simp add: showInt_def showNat_inj)
    with \<open>\<not> i < 0\<close> \<open>\<not> j < 0\<close> show ?thesis by simp
  qed
qed

lemma showInt_no_colon: "CHR '':'' \<notin> set (showInt i)"
  using showNat_digits[of "nat i"] showNat_digits[of "nat (- i)"] by (auto simp: showInt_def)

lemma split_at_colon:
  assumes "CHR '':'' \<notin> set a" "CHR '':'' \<notin> set b" "a @ CHR '':'' # r = b @ CHR '':'' # s"
  shows "a = b \<and> r = s"
proof -
  have "takeWhile (\<lambda>c. c \<noteq> CHR '':'') (a @ CHR '':'' # r) = a"
    using assms(1) by (subst takeWhile_append2) auto
  moreover have "takeWhile (\<lambda>c. c \<noteq> CHR '':'') (b @ CHR '':'' # s) = b"
    using assms(2) by (subst takeWhile_append2) auto
  ultimately have "a = b" using assms(3) by simp
  with assms(3) show ?thesis by simp
qed

section \<open>Frame identity and canonical ids\<close>

lemma canonicalId_cong: "isSameFrame a b \<Longrightarrow> canonicalId a = canonicalId b"
  by (simp add: isSameFrame_def canonicalId_def)

lemma canonicalId_inj:
  assumes pa: "CHR '':'' \<notin> set (showPath (sourcePath a))"
    and pb: "CHR '':'' \<notin> set (showPath (sourcePath b))"
    and ua: "sourcePath a \<noteq> Some ''undefined''" and ub: "sourcePath b \<noteq> Some ''undefined''"
    and eq: "canonicalId a = canonicalId b"
  shows "isSameFrame a b"
proof -
  from eq have e1: "showPath (sourcePath a) @ CHR '':'' # (showInt (f_line a) @ CHR '':'' # (showInt (f_column a) @ CHR '':'' # f_name a))
     = showPath (sourcePath b) @ CHR '':'' # (showInt (f_line b) @ CHR '':'' # (showInt (f_column b) @ CHR '':'' # f_name b))"
    by (simp add: canonicalId_def)
  from split_at_colon[OF pa pb e1] have p: "showPath (sourcePath a) = showPath (sourcePath b)"
    and e2: "showInt (f_line a) @ CHR '':'' # (showInt (f_column a) @ CHR '':'' # f_name a)
       = showInt (f_line b) @ CHR '':'' # (showInt (f_column b) @ CHR '':'' # f_name b)" by simp_all
  from split_at_colon[OF showInt_no_colon showInt_no_colon e2] have l: "showInt (f_line a) = showInt (f_line b)"
    and e3: "showInt (f_column a) @ CHR '':'' # f_name a = showInt (f_column b) @ CHR '':'' # f_name b" by simp_all
  from split_at_colon[OF showInt_no_colon showInt_no_colon e3] have c: "showInt (f_column a) = showInt (f_column b)"
    and n: "f_name a = f_name b" by simp_all
  from p ua ub have "sourcePath a = sourcePath b"
    by (cases "sourcePath a"; cases "sourcePath b") (simp_all add: showPath_def)
  with l c n show ?thesis by (simp add: isSameFrame_def showInt_inj)
qed

text \<open>
  Claim C1, as the specification words it, identifies an absent source path with the
  empty string. \<open>isSameFrame\<close> does not: a frame without a source and an otherwise equal
  frame whose path is the empty string are different frames for the code and the same
  frame for the specification's reading.
\<close>

theorem isSameFrame_absent_vs_empty_path:
  "\<not> (isSameFrame (mkFrame ''main'' 1 1 None) (mkFrame ''main'' 1 1 (Some ''''))
      \<longleftrightarrow> sameFrame_spec (mkFrame ''main'' 1 1 None) (mkFrame ''main'' 1 1 (Some '''')))"
  by (simp add: isSameFrame_def sameFrame_spec_def pathOrEmpty_def sourcePath_def mkFrame_def)

text \<open>
  Claim C1, amended: \<open>isSameFrame a b\<close> holds exactly when name, line and column are
  equal and the two optional source paths are equal as optional values, that is both
  absent or both present and equal; an absent path equals no string, the empty one
  included. So two frames without a path match on name, line and column alone, and a
  frame without a path never matches a frame that has one, in either argument order.
\<close>

theorem isSameFrame_optional_path:
  "(isSameFrame a b \<longleftrightarrow>
      f_name a = f_name b \<and> f_line a = f_line b \<and> f_column a = f_column b \<and>
      (case (sourcePath a, sourcePath b) of
         (None, None) \<Rightarrow> True
       | (Some p, Some q) \<Rightarrow> p = q
       | _ \<Rightarrow> False)) \<and>
   (sourcePath a = None \<and> sourcePath b = None \<longrightarrow>
      (isSameFrame a b \<longleftrightarrow> f_name a = f_name b \<and> f_line a = f_line b \<and> f_column a = f_column b)) \<and>
   (sourcePath a = None \<and> sourcePath b \<noteq> None \<longrightarrow> \<not> isSameFrame a b \<and> \<not> isSameFrame b a)"
  by (auto simp: isSameFrame_def split: option.splits)

theorem isSameFrame_optional_path_witness:
  "sourcePath (mkFrame ''main'' 1 1 None) = None \<and>
   isSameFrame (mkFrame ''main'' 1 1 None) (mkFrame ''main'' 1 1 None) \<and>
   sourcePath (mkFrame ''main'' 1 1 (Some ''main.cpp'')) \<noteq> None \<and>
   \<not> isSameFrame (mkFrame ''main'' 1 1 None) (mkFrame ''main'' 1 1 (Some ''main.cpp''))"
  using isSameFrame_optional_path [of "mkFrame ''main'' 1 1 None" "mkFrame ''main'' 1 1 None"]
    isSameFrame_optional_path [of "mkFrame ''main'' 1 1 None" "mkFrame ''main'' 1 1 (Some ''main.cpp'')"]
  by (simp add: sourcePath_def mkFrame_def)

text \<open>
  Claim C2, as stated, makes equal canonical ids equivalent to \<open>isSameFrame\<close> and lets an
  absent path be encoded as the empty string. The template literal renders an absent
  path as the word \<open>undefined\<close> and joins the four parts with colons without escaping,
  so different frames can share a canonical id: a frame without a path and one whose path
  is \<open>undefined\<close>; a frame whose name contains a colon and one whose path does.
\<close>

theorem canonicalId_collision:
  "\<not> (canonicalId (mkFrame ''f'' 1 1 None) = canonicalId (mkFrame ''f'' 1 1 (Some ''undefined''))
       \<longleftrightarrow> isSameFrame (mkFrame ''f'' 1 1 None) (mkFrame ''f'' 1 1 (Some ''undefined''))) \<and>
   \<not> (canonicalId (mkFrame ''3:x'' 1 2 (Some ''a'')) = canonicalId (mkFrame ''x'' 2 3 (Some ''a:1''))
       \<longleftrightarrow> isSameFrame (mkFrame ''3:x'' 1 2 (Some ''a'')) (mkFrame ''x'' 2 3 (Some ''a:1'')))"
  by code_simp

text \<open>
  Claim C2, amended: frames that are the same for \<open>isSameFrame\<close> have equal canonical
  ids; conversely equal canonical ids give the same frame whenever neither rendered path
  contains a colon and neither path is the word \<open>undefined\<close>; and the canonical id is the
  path (the word \<open>undefined\<close> when absent), the line, the column and the name, in decimal
  and separated by colons.
\<close>

theorem canonicalId_sameFrame:
  "(isSameFrame a b \<longrightarrow> canonicalId a = canonicalId b) \<and>
   (CHR '':'' \<notin> set (showPath (sourcePath a)) \<and> CHR '':'' \<notin> set (showPath (sourcePath b)) \<and>
    sourcePath a \<noteq> Some ''undefined'' \<and> sourcePath b \<noteq> Some ''undefined'' \<and>
    canonicalId a = canonicalId b \<longrightarrow> isSameFrame a b) \<and>
   canonicalId a =
     (case sourcePath a of None \<Rightarrow> ''undefined'' | Some p \<Rightarrow> p) @ '':'' @
     showInt (f_line a) @ '':'' @ showInt (f_column a) @ '':'' @ f_name a"
  using canonicalId_cong[of a b] canonicalId_inj[of a b]
  by (auto simp: canonicalId_def showPath_def)

theorem canonicalId_sameFrame_witness:
  "isSameFrame (mkFrame ''main'' 1 1 (Some ''main.cpp'')) (mkFrame ''main'' 1 1 (Some ''main.cpp'')) \<and>
   CHR '':'' \<notin> set (showPath (sourcePath (mkFrame ''main'' 1 1 (Some ''main.cpp'')))) \<and>
   sourcePath (mkFrame ''main'' 1 1 (Some ''main.cpp'')) \<noteq> Some ''undefined'' \<and>
   canonicalId (mkFrame ''main'' 1 1 (Some ''main.cpp'')) = ''main.cpp:1:1:main''"
  using canonicalId_sameFrame [of "mkFrame ''main'' 1 1 (Some ''main.cpp'')" "mkFrame ''main'' 1 1 (Some ''main.cpp'')"]
  by (simp add: isSameFrame_def sourcePath_def showPath_def mkFrame_def showInt_def showNat_small)

section \<open>Invariants of the builder\<close>

lemma node_all_sel: "node_all P n = (P n \<and> list_all (node_all P) (n_children n))"
  by (cases n) simp

lemma forest_all_simps [simp]:
  "forest_all P []"
  "forest_all P (n # ns) = (P n \<and> forest_all P (n_children n) \<and> forest_all P ns)"
  "forest_all P (xs @ ys) = (forest_all P xs \<and> forest_all P ys)"
  by (auto simp: forest_all_def node_all_sel[of P n])

lemma addThread_sel [simp]:
  "n_id (addThread th n) = n_id n"
  "n_children (addThread th n) = n_children n"
  by (simp_all add: addThread_def Let_def)

lemma setChildren_sel [simp]:
  "n_id (setChildren n cs) = n_id n"
  "n_frame (setChildren n cs) = n_frame n"
  "n_children (setChildren n cs) = cs"
  "n_threadIds (setChildren n cs) = n_threadIds n"
  "n_threadNames (setChildren n cs) = n_threadNames n"
  by (simp_all add: setChildren_def)

lemma newNode_children [simp]: "n_children (newNode b th f) = []"
  by (simp add: newNode_def Let_def)

lemma addFrames_forest_all:
  assumes loc: "\<And>n cs. P n \<Longrightarrow> P (setChildren n cs)"
    and reuse: "\<And>n f. f \<in> set fs \<Longrightarrow> P n \<Longrightarrow> reusable f n \<Longrightarrow> P (addThread th n)"
    and fresh: "\<And>f. f \<in> set fs \<Longrightarrow> P (addThread th (newNode (canonicalId f \<in> set sp) th f))"
    and inv: "forest_all P nodes"
  shows "forest_all P (addFrames sp th fs nodes)"
  using reuse fresh inv
proof (induction fs arbitrary: nodes)
  case Nil
  then show ?case by simp
next
  case (Cons f fs)
  note locD = loc
  have IH: "\<And>ns. forest_all P ns \<Longrightarrow> forest_all P (addFrames sp th fs ns)"
    by (rule Cons.IH) (use Cons.prems in auto)
  show ?case
  proof (cases "if canonicalId f \<in> set sp then None else List.extract (reusable f) nodes")
    case None
    have "P (addThread th (newNode (canonicalId f \<in> set sp) th f))"
      using Cons.prems(2) by simp
    with None Cons.prems(3) show ?thesis
      by (simp add: Let_def locD IH)
  next
    case (Some trip)
    obtain before n after where trip: "trip = (before, n, after)" by (cases trip)
    from Some trip have ex: "List.extract (reusable f) nodes = Some (before, n, after)"
      by (simp split: if_splits)
    then have nodes: "nodes = before @ n # after" and r: "reusable f n"
      by (auto simp: extract_Some_iff)
    from Cons.prems(3) nodes have "P n" "forest_all P (n_children n)" "forest_all P before" "forest_all P after"
      by simp_all
    moreover have "P (addThread th n)"
      using Cons.prems(1)[of f n] \<open>P n\<close> r by simp
    ultimately show ?thesis
      using Some trip by (simp add: Let_def locD IH)
  qed
qed

lemma buildGraph_forest_all:
  assumes loc: "\<And>n cs. P n \<Longrightarrow> P (setChildren n cs)"
    and reuse: "\<And>th n f. th \<in> set ts \<Longrightarrow> f \<in> set (t_frames th) \<Longrightarrow> P n \<Longrightarrow> reusable f n \<Longrightarrow> P (addThread th n)"
    and fresh: "\<And>th f. th \<in> set ts \<Longrightarrow> f \<in> set (t_frames th) \<Longrightarrow> P (addThread th (newNode (canonicalId f \<in> set sp) th f))"
  shows "forest_all P (buildGraph ts sp)"
proof -
  have "forest_all P acc \<Longrightarrow> forest_all P (foldl (\<lambda>rootNodes thread. addFrames sp thread (t_frames thread) rootNodes) acc ts)" for acc
    using reuse fresh
  proof (induction ts arbitrary: acc)
    case Nil then show ?case by simp
  next
    case (Cons t ts)
    have "forest_all P (addFrames sp t (t_frames t) acc)"
      by (rule addFrames_forest_all) (use loc Cons.prems in auto)
    then show ?case using Cons by simp
  qed
  then show ?thesis by (simp add: buildGraph_def)
qed

text \<open>
  Claim C7: without threads the forest is empty; when every thread has an empty frame
  sequence the forest is empty; and in general threads with an empty frame sequence can
  be removed from the input without changing the forest.
\<close>

lemma foldl_addFrames_filter:
  "foldl (\<lambda>rootNodes thread. addFrames sp thread (t_frames thread) rootNodes) acc ts =
   foldl (\<lambda>rootNodes thread. addFrames sp thread (t_frames thread) rootNodes) acc
     (filter (\<lambda>t. t_frames t \<noteq> []) ts)"
  by (induction ts arbitrary: acc) simp_all

theorem buildGraph_empty_threads:
  "buildGraph [] splitNodes = [] \<and>
   ((\<forall>t \<in> set threadsData. t_frames t = []) \<longrightarrow> buildGraph threadsData splitNodes = []) \<and>
   buildGraph threadsData splitNodes =
     buildGraph (filter (\<lambda>t. t_frames t \<noteq> []) threadsData) splitNodes"
proof -
  have f: "buildGraph threadsData splitNodes =
     buildGraph (filter (\<lambda>t. t_frames t \<noteq> []) threadsData) splitNodes"
    unfolding buildGraph_def by (rule foldl_addFrames_filter)
  have "(\<forall>t \<in> set threadsData. t_frames t = []) \<longrightarrow> filter (\<lambda>t. t_frames t \<noteq> []) threadsData = []"
    by (simp add: filter_empty_conv)
  with f show ?thesis by (auto simp: buildGraph_def)
qed

theorem buildGraph_empty_threads_witness:
  "list_all (\<lambda>t. t_frames t = []) [mkThread 1 ''T1'' [], mkThread 2 ''T2'' []] \<and>
   buildGraph [mkThread 1 ''T1'' [], mkThread 2 ''T2'' []] [''f:1:1:A''] = []"
  using buildGraph_empty_threads [of "[''f:1:1:A'']" "[mkThread 1 ''T1'' [], mkThread 2 ''T2'' []]"]
  by (simp add: mkThread_def)

text \<open>
  Claim C9: a pass of one thread over a forest in which every node's frame carries the
  node's own membership list leaves a forest of that kind, and so in every forest that
  \<open>buildGraph\<close> returns \<open>node.frame.threadIds\<close> equals \<open>node.threadIds\<close> at every node.
\<close>

theorem frame_threadIds_eq_node_threadIds:
  "(forest_all (\<lambda>n. f_threadIds (n_frame n) = n_threadIds n) nodes \<longrightarrow>
      forest_all (\<lambda>n. f_threadIds (n_frame n) = n_threadIds n)
        (addFrames splitNodes thread frames nodes)) \<and>
   forest_all (\<lambda>n. f_threadIds (n_frame n) = n_threadIds n) (buildGraph threadsData splitNodes)"
proof
  show "forest_all (\<lambda>n. f_threadIds (n_frame n) = n_threadIds n) nodes \<longrightarrow>
      forest_all (\<lambda>n. f_threadIds (n_frame n) = n_threadIds n)
        (addFrames splitNodes thread frames nodes)"
    by (rule impI, rule addFrames_forest_all) (auto simp: addThread_def newNode_def Let_def)
  show "forest_all (\<lambda>n. f_threadIds (n_frame n) = n_threadIds n) (buildGraph threadsData splitNodes)"
    by (rule buildGraph_forest_all) (auto simp: addThread_def newNode_def Let_def)
qed

theorem frame_threadIds_eq_node_threadIds_witness:
  "forest_all (\<lambda>n. f_threadIds (n_frame n) = n_threadIds n) (buildGraph [hd divergentThreads] []) \<and>
   forest_all (\<lambda>n. f_threadIds (n_frame n) = n_threadIds n)
     (addFrames [] (divergentThreads ! 1) (t_frames (divergentThreads ! 1))
        (buildGraph [hd divergentThreads] [])) \<and>
   buildGraph [hd divergentThreads] [] \<noteq> []"
proof -
  have ne: "buildGraph [hd divergentThreads] [] \<noteq> []" by code_simp
  show ?thesis
    using frame_threadIds_eq_node_threadIds [of "buildGraph [hd divergentThreads] []" "[]"
        "divergentThreads ! 1" "t_frames (divergentThreads ! 1)" "[hd divergentThreads]"] ne
    by simp
qed

section \<open>One step of the inner loop\<close>

text \<open>
  The two ways a frame is processed: a node is pushed at the end of the sibling list
  (the frame is split, or no sibling can be reused), or the first reusable sibling is
  updated in place.
\<close>

lemma addFrames_cases:
  obtains (create) "canonicalId f \<in> set sp \<or> \<not> list_ex (reusable f) nodes"
      "addFrames sp th (f # fs) nodes =
         nodes @ [setChildren (addThread th (newNode (canonicalId f \<in> set sp) th f))
                    (addFrames sp th fs [])]"
  | (reuse) before n after where "canonicalId f \<notin> set sp" "nodes = before @ n # after"
      "reusable f n" "\<not> list_ex (reusable f) before"
      "addFrames sp th (f # fs) nodes =
         before @ setChildren (addThread th n) (addFrames sp th fs (n_children n)) # after"
proof (cases "if canonicalId f \<in> set sp then None else List.extract (reusable f) nodes")
  case None
  then have "canonicalId f \<in> set sp \<or> \<not> list_ex (reusable f) nodes"
    by (auto simp: extract_None_iff list_ex_iff split: if_splits)
  moreover have "addFrames sp th (f # fs) nodes =
         nodes @ [setChildren (addThread th (newNode (canonicalId f \<in> set sp) th f))
                    (addFrames sp th fs [])]"
    using None by (simp add: Let_def newNode_def)
  ultimately show ?thesis by (rule create)
next
  case (Some trip)
  obtain before n after where trip: "trip = (before, n, after)" by (cases trip)
  from Some trip have ns: "canonicalId f \<notin> set sp"
    and ex: "List.extract (reusable f) nodes = Some (before, n, after)"
    by (simp_all split: if_splits)
  from ex have "nodes = before @ n # after" "reusable f n" "\<not> list_ex (reusable f) before"
    by (auto simp: extract_Some_iff list_ex_iff)
  moreover have "addFrames sp th (f # fs) nodes =
         before @ setChildren (addThread th n) (addFrames sp th fs (n_children n)) # after"
    using ns ex by (simp add: Let_def)
  ultimately show ?thesis using ns by (intro reuse) 
qed

declare addFrames.simps(2) [simp del]

lemma addThread_newNode:
  "addThread th (newNode b th f) =
     GraphNode (if b then canonicalId f @ splitMarker @ showInt (t_id th) else canonicalId f)
       \<lparr>f_id = f_id f, f_name = f_name f, f_source = f_source f,
        f_line = f_line f, f_column = f_column f, f_threadIds = [t_id th]\<rparr>
       [] [t_id th] [t_name th]"
  by (simp add: addThread_def newNode_def Let_def)

lemma newNode_id:
  "n_id (newNode b th f) = (if b then canonicalId f @ splitMarker @ showInt (t_id th) else canonicalId f)"
  by (simp add: newNode_def Let_def)

lemma addThread_frameData [simp]: "sameFrameData (n_frame (addThread th n)) fr = sameFrameData (n_frame n) fr"
  by (simp add: addThread_def Let_def sameFrameData_def)

lemma addThread_frameKey [simp]: "frameKey (n_frame (addThread th n)) = frameKey (n_frame n)"
  by (simp add: addThread_def Let_def frameKey_def sourcePath_def)

lemma newNode_frameKey [simp]: "frameKey (n_frame (newNode b th f)) = frameKey f"
  by (simp add: newNode_def Let_def frameKey_def sourcePath_def)

lemma isSameFrame_frameKey: "isSameFrame a b \<longleftrightarrow> frameKey a = frameKey b"
  by (auto simp: isSameFrame_def frameKey_def)

lemma includes_str_append: "includes_str (a @ m @ b) m"
proof (induction a)
  case Nil
  have "prefix m (m @ b)" by simp
  then show ?case by (cases "m @ b") auto
next
  case (Cons x a)
  then show ?case by simp
qed

lemma addFrames_split_step:
  assumes "canonicalId f \<in> set sp"
  shows "addFrames sp th (f # fs) nodes =
     nodes @ [GraphNode (canonicalId f @ splitMarker @ showInt (t_id th))
       \<lparr>f_id = f_id f, f_name = f_name f, f_source = f_source f,
        f_line = f_line f, f_column = f_column f, f_threadIds = [t_id th]\<rparr>
       (addFrames sp th fs []) [t_id th] [t_name th]]"
  using assms by (simp add: addFrames.simps(2) Let_def addThread_newNode setChildren_def)

section \<open>Nodes are never modified after their creation\<close>

lemma keptNode_sel:
  "keptNode n n' = (n_id n' = n_id n \<and> sameFrameData (n_frame n') (n_frame n) \<and>
     keptForest (n_children n) (n_children n'))"
  by (cases n) simp

lemma keptForest_conv:
  "keptForest old new = (length old \<le> length new \<and> list_all2 keptNode old (take (length old) new))"
proof (induction old arbitrary: new)
  case Nil
  then show ?case by simp
next
  case (Cons n ns)
  then show ?case by (cases new) auto
qed

lemma keptNode_refl: "keptNode n n"
proof (induction n)
  case (GraphNode i fr cs ids names)
  then have "list_all2 keptNode cs cs" by (simp add: list_all2_same)
  then show ?case by (simp add: keptForest_conv sameFrameData_def)
qed

lemma keptForest_refl: "keptForest ns ns"
  by (simp add: keptForest_conv list_all2_same keptNode_refl)

lemma keptForest_append: "keptForest ns (ns @ ms)"
  by (simp add: keptForest_conv list_all2_same keptNode_refl)

lemma keptForest_replace:
  "keptNode n n' \<Longrightarrow> keptForest (before @ n # after) (before @ n' # after)"
  by (induction before) (simp_all add: keptNode_refl keptForest_refl)

lemma keptForest_Cons_left:
  "keptForest (n # ns) new = (\<exists>m ms. new = m # ms \<and> keptNode n m \<and> keptForest ns ms)"
  by (cases new) simp_all

lemma keptNode_trans: "keptNode a b \<Longrightarrow> keptNode b c \<Longrightarrow> keptNode a c"
proof (induction a arbitrary: b c)
  case (GraphNode i fr cs ids names)
  have step: "keptForest xs ys \<Longrightarrow> keptForest ys zs \<Longrightarrow> set xs \<subseteq> set cs \<Longrightarrow> keptForest xs zs" for xs ys zs
  proof (induction xs arbitrary: ys zs)
    case Nil
    then show ?case by simp
  next
    case (Cons x xs)
    from Cons.prems(1) obtain y ys' where ys: "ys = y # ys'" "keptNode x y" "keptForest xs ys'"
      by (auto simp: keptForest_Cons_left)
    from Cons.prems(2) ys obtain z zs' where zs: "zs = z # zs'" "keptNode y z" "keptForest ys' zs'"
      by (auto simp: keptForest_Cons_left)
    have "x \<in> set cs" using Cons.prems(3) by simp
    then have "keptNode x z" using GraphNode.IH ys(2) zs(2) by blast
    moreover have "keptForest xs zs'" using Cons.IH ys(3) zs(3) Cons.prems(3) by simp
    ultimately show ?case using zs(1) by simp
  qed
  from GraphNode.prems have "keptForest cs (n_children b)" "keptForest (n_children b) (n_children c)"
    by (simp_all add: keptNode_sel[of b c])
  then have "keptForest cs (n_children c)" using step by blast
  with GraphNode.prems show ?case by (simp add: keptNode_sel[of b c] sameFrameData_def)
qed

lemma keptForest_trans: "keptForest xs ys \<Longrightarrow> keptForest ys zs \<Longrightarrow> keptForest xs zs"
proof (induction xs arbitrary: ys zs)
  case Nil
  then show ?case by simp
next
  case (Cons x xs)
  from Cons.prems(1) obtain y ys' where ys: "ys = y # ys'" "keptNode x y" "keptForest xs ys'"
    by (auto simp: keptForest_Cons_left)
  from Cons.prems(2) ys obtain z zs' where zs: "zs = z # zs'" "keptNode y z" "keptForest ys' zs'"
    by (auto simp: keptForest_Cons_left)
  show ?case using keptNode_trans[OF ys(2) zs(2)] Cons.IH[OF ys(3) zs(3)] zs(1) by simp
qed

lemma addFrames_kept: "keptForest nodes (addFrames sp th fs nodes)"
proof (induction fs arbitrary: nodes)
  case Nil
  then show ?case by (simp add: keptForest_refl)
next
  case (Cons f fs)
  show ?case
  proof (cases rule: addFrames_cases[of f sp nodes th fs])
    case create
    then show ?thesis by (simp add: keptForest_append)
  next
    case (reuse before n after)
    have "keptNode n (setChildren (addThread th n) (addFrames sp th fs (n_children n)))"
      using Cons.IH[of "n_children n"] by (simp add: keptNode_sel) (simp add: sameFrameData_def)
    then show ?thesis using reuse(2,5) by (simp add: keptForest_replace)
  qed
qed

lemma foldl_addFrames_kept:
  "keptForest acc (foldl (\<lambda>rootNodes thread. addFrames sp thread (t_frames thread) rootNodes) acc ts)"
proof (induction ts arbitrary: acc)
  case Nil
  then show ?case by (simp add: keptForest_refl)
next
  case (Cons t ts)
  show ?case using keptForest_trans[OF addFrames_kept Cons.IH] by simp
qed

lemma nodes_from_input_frames:
  "forest_all (\<lambda>n. list_ex (\<lambda>t. list_ex (\<lambda>f. sameFrameData (n_frame n) f) (t_frames t)) ts)
     (buildGraph ts sp)"
proof (rule buildGraph_forest_all)
  fix th f
  assume "th \<in> set ts" "f \<in> set (t_frames th)"
  then show "list_ex (\<lambda>t. list_ex (\<lambda>f'. sameFrameData (n_frame (addThread th (newNode (canonicalId f \<in> set sp) th f))) f')
      (t_frames t)) ts"
    by (auto simp: list_ex_iff addThread_newNode sameFrameData_def)
qed simp_all

text \<open>
  Claim C10: when a sibling is reused, the siblings before and after it are left as they
  are, and the reused node keeps its id, its frame's id, name, source, line and column
  and its children array; the thread is added to the membership lists and the cursor
  moves into the children. A pass of one thread therefore keeps every node that was
  there, with its id and frame data, whatever the later threads are. A node is created
  from the frame of the thread that is being processed when no sibling can be reused, and
  so every node's frame data is that of an input frame: the frame of the thread that
  created the node.
\<close>

theorem node_data_never_modified:
  "(canonicalId frame \<notin> set splitNodes \<and> nodes = before @ n # after \<and>
    reusable frame n \<and> \<not> list_ex (reusable frame) before \<longrightarrow>
      addFrames splitNodes thread (frame # frames) nodes =
        before @ setChildren (addThread thread n)
                   (addFrames splitNodes thread frames (n_children n)) # after \<and>
      n_id (addThread thread n) = n_id n \<and>
      sameFrameData (n_frame (addThread thread n)) (n_frame n) \<and>
      n_children (addThread thread n) = n_children n) \<and>
   keptForest nodes (addFrames splitNodes thread frames nodes) \<and>
   keptForest (buildGraph threadsData splitNodes) (buildGraph (threadsData @ later) splitNodes) \<and>
   (canonicalId frame \<in> set splitNodes \<or> \<not> list_ex (reusable frame) nodes \<longrightarrow>
      (\<exists>node. addFrames splitNodes thread (frame # frames) nodes = nodes @ [node] \<and>
         sameFrameData (n_frame node) frame)) \<and>
   forest_all (\<lambda>n. list_ex (\<lambda>t. list_ex (\<lambda>f. sameFrameData (n_frame n) f) (t_frames t)) threadsData)
     (buildGraph threadsData splitNodes)"
proof (intro conjI impI)
  assume a: "canonicalId frame \<notin> set splitNodes \<and> nodes = before @ n # after \<and>
    reusable frame n \<and> \<not> list_ex (reusable frame) before"
  then have "List.extract (reusable frame) nodes = Some (before, n, after)"
    by (auto simp: extract_Some_iff list_ex_iff)
  with a show "addFrames splitNodes thread (frame # frames) nodes =
        before @ setChildren (addThread thread n)
                   (addFrames splitNodes thread frames (n_children n)) # after"
    by (simp add: addFrames.simps(2) Let_def)
next
  show "n_id (addThread thread n) = n_id n" by simp
  show "sameFrameData (n_frame (addThread thread n)) (n_frame n)"
    by (simp add: sameFrameData_def addThread_def Let_def)
  show "n_children (addThread thread n) = n_children n" by simp
  show "keptForest nodes (addFrames splitNodes thread frames nodes)"
    by (rule addFrames_kept)
  show "keptForest (buildGraph threadsData splitNodes) (buildGraph (threadsData @ later) splitNodes)"
    by (simp add: buildGraph_def foldl_addFrames_kept)
  show "forest_all (\<lambda>n. list_ex (\<lambda>t. list_ex (\<lambda>f. sameFrameData (n_frame n) f) (t_frames t)) threadsData)
     (buildGraph threadsData splitNodes)"
    by (rule nodes_from_input_frames)
next
  assume a: "canonicalId frame \<in> set splitNodes \<or> \<not> list_ex (reusable frame) nodes"
  show "\<exists>node. addFrames splitNodes thread (frame # frames) nodes = nodes @ [node] \<and>
         sameFrameData (n_frame node) frame"
  proof (cases rule: addFrames_cases[of frame splitNodes nodes thread frames])
    case create
    then show ?thesis by (simp add: addThread_newNode sameFrameData_def)
  next
    case (reuse before n after)
    with a show ?thesis by (simp add: list_ex_iff)
  qed
qed

theorem node_data_never_modified_witness:
  "canonicalId (hd (t_frames (identicalThreads ! 1))) \<notin> set [] \<and>
   buildGraph [hd identicalThreads] [] = [] @ hd (buildGraph [hd identicalThreads] []) # [] \<and>
   reusable (hd (t_frames (identicalThreads ! 1))) (hd (buildGraph [hd identicalThreads] [])) \<and>
   \<not> list_ex (reusable (hd (t_frames (identicalThreads ! 1)))) [] \<and>
   addFrames [] (identicalThreads ! 1) (hd (t_frames (identicalThreads ! 1)) # tl (t_frames (identicalThreads ! 1)))
       (buildGraph [hd identicalThreads] []) =
     [] @ setChildren (addThread (identicalThreads ! 1) (hd (buildGraph [hd identicalThreads] [])))
            (addFrames [] (identicalThreads ! 1) (tl (t_frames (identicalThreads ! 1)))
               (n_children (hd (buildGraph [hd identicalThreads] [])))) # [] \<and>
   keptForest (buildGraph [hd identicalThreads] []) (buildGraph ([hd identicalThreads] @ tl identicalThreads) []) \<and>
   map (\<lambda>n. f_id (n_frame n)) (buildGraph [hd identicalThreads] []) = [Some 10] \<and>
   map (\<lambda>n. f_id (n_frame n)) (buildGraph ([hd identicalThreads] @ tl identicalThreads) []) = [Some 10] \<and>
   map n_threadIds (buildGraph ([hd identicalThreads] @ tl identicalThreads) []) = [[1, 2]] \<and>
   \<not> list_ex (reusable (mkFrame ''A'' 1 1 (Some ''f''))) [] \<and>
   (\<exists>node. addFrames [] (hd identicalThreads) [mkFrame ''A'' 1 1 (Some ''f'')] [] = [] @ [node] \<and>
       sameFrameData (n_frame node) (mkFrame ''A'' 1 1 (Some ''f'')))"
proof -
  have e: "map (\<lambda>n. f_id (n_frame n)) (buildGraph [hd identicalThreads] []) = [Some 10]"
    "map (\<lambda>n. f_id (n_frame n)) (buildGraph ([hd identicalThreads] @ tl identicalThreads) []) = [Some 10]"
    "map n_threadIds (buildGraph ([hd identicalThreads] @ tl identicalThreads) []) = [[1, 2]]"
    by code_simp+
  have h: "canonicalId (hd (t_frames (identicalThreads ! 1))) \<notin> set []"
    "buildGraph [hd identicalThreads] [] = [] @ hd (buildGraph [hd identicalThreads] []) # []"
    "reusable (hd (t_frames (identicalThreads ! 1))) (hd (buildGraph [hd identicalThreads] []))"
    "\<not> list_ex (reusable (hd (t_frames (identicalThreads ! 1)))) []"
    by code_simp+
  have r: "addFrames [] (identicalThreads ! 1) (hd (t_frames (identicalThreads ! 1)) # tl (t_frames (identicalThreads ! 1)))
       (buildGraph [hd identicalThreads] []) =
     [] @ setChildren (addThread (identicalThreads ! 1) (hd (buildGraph [hd identicalThreads] [])))
            (addFrames [] (identicalThreads ! 1) (tl (t_frames (identicalThreads ! 1)))
               (n_children (hd (buildGraph [hd identicalThreads] [])))) # []"
    using node_data_never_modified [where frame = "hd (t_frames (identicalThreads ! 1))"
        and splitNodes = "[]" and nodes = "buildGraph [hd identicalThreads] []" and before = "[]"
        and n = "hd (buildGraph [hd identicalThreads] [])" and after = "[]"
        and thread = "identicalThreads ! 1" and frames = "tl (t_frames (identicalThreads ! 1))"] h
    by blast
  have k: "keptForest (buildGraph [hd identicalThreads] []) (buildGraph ([hd identicalThreads] @ tl identicalThreads) [])"
    "\<exists>node. addFrames [] (hd identicalThreads) [mkFrame ''A'' 1 1 (Some ''f'')] [] = [] @ [node] \<and>
       sameFrameData (n_frame node) (mkFrame ''A'' 1 1 (Some ''f''))"
    using node_data_never_modified [where nodes = "[]" and splitNodes = "[]" and thread = "hd identicalThreads"
        and frames = "[]" and threadsData = "[hd identicalThreads]" and later = "tl identicalThreads"
        and frame = "mkFrame ''A'' 1 1 (Some ''f'')"]
    by simp_all
  show ?thesis using e h r k by simp
qed

section \<open>Splitting\<close>

lemma marker_nodes_exclusive:
  "forest_all (\<lambda>n. includes_str (n_id n) splitMarker \<longrightarrow>
       list_ex (\<lambda>t. n_threadIds n = [t_id t] \<and> n_threadNames n = [t_name t]) ts)
     (buildGraph ts sp)"
proof (rule buildGraph_forest_all)
  fix n cs
  assume "includes_str (n_id n) splitMarker \<longrightarrow>
       list_ex (\<lambda>t. n_threadIds n = [t_id t] \<and> n_threadNames n = [t_name t]) ts"
  then show "includes_str (n_id (setChildren n cs)) splitMarker \<longrightarrow>
       list_ex (\<lambda>t. n_threadIds (setChildren n cs) = [t_id t] \<and> n_threadNames (setChildren n cs) = [t_name t]) ts"
    by simp
next
  fix th n f
  assume "reusable f n"
  then show "includes_str (n_id (addThread th n)) splitMarker \<longrightarrow>
       list_ex (\<lambda>t. n_threadIds (addThread th n) = [t_id t] \<and> n_threadNames (addThread th n) = [t_name t]) ts"
    by (simp add: reusable_def)
next
  fix th f
  assume "th \<in> set ts"
  then show "includes_str (n_id (addThread th (newNode (canonicalId f \<in> set sp) th f))) splitMarker \<longrightarrow>
       list_ex (\<lambda>t. n_threadIds (addThread th (newNode (canonicalId f \<in> set sp) th f)) = [t_id t] \<and>
          n_threadNames (addThread th (newNode (canonicalId f \<in> set sp) th f)) = [t_name t]) ts"
    by (auto simp: addThread_newNode list_ex_iff)
qed

lemma level_append: "level d (xs @ ys) = level d xs @ level d ys"
  by (induction d arbitrary: xs ys) simp_all

lemma level_single_thread:
  assumes "d < length fs"
  shows "level d (addFrames sp th fs []) =
     [GraphNode (if canonicalId (fs ! d) \<in> set sp
                 then canonicalId (fs ! d) @ splitMarker @ showInt (t_id th)
                 else canonicalId (fs ! d))
       \<lparr>f_id = f_id (fs ! d), f_name = f_name (fs ! d), f_source = f_source (fs ! d),
        f_line = f_line (fs ! d), f_column = f_column (fs ! d), f_threadIds = [t_id th]\<rparr>
       (addFrames sp th (drop (Suc d) fs) []) [t_id th] [t_name th]]"
  using assms
proof (induction fs arbitrary: d)
  case Nil
  then show ?case by simp
next
  case (Cons f fs)
  have eq: "addFrames sp th (f # fs) [] =
     [setChildren (addThread th (newNode (canonicalId f \<in> set sp) th f)) (addFrames sp th fs [])]"
    by (simp add: addFrames.simps(2) Let_def extract_Nil_code)
  show ?case
  proof (cases d)
    case 0
    then show ?thesis unfolding eq by (simp add: addThread_newNode setChildren_def)
  next
    case (Suc d')
    with Cons.prems have "d' < length fs" by simp
    from Cons.IH[OF this] show ?thesis unfolding eq Suc by simp
  qed
qed

lemma level_Nil [simp]: "level d [] = []"
  by (induction d) simp_all

lemma level_two_threads:
  assumes "d < length fs2" "canonicalId (fs2 ! d) \<in> set sp"
  shows "level d (addFrames sp t2 fs2 (addFrames sp t1 fs1 [])) =
     level d (addFrames sp t1 fs1 []) @ level d (addFrames sp t2 fs2 [])"
  using assms
proof (induction fs2 arbitrary: fs1 d)
  case Nil
  then show ?case by simp
next
  case (Cons f2 fs2)
  show ?case
  proof (cases fs1)
    case Nil
    then show ?thesis by simp
  next
    case (Cons f1 fs1')
    let ?N1 = "setChildren (addThread t1 (newNode (canonicalId f1 \<in> set sp) t1 f1)) (addFrames sp t1 fs1' [])"
    let ?N2 = "setChildren (addThread t2 (newNode (canonicalId f2 \<in> set sp) t2 f2)) (addFrames sp t2 fs2 [])"
    have eq1: "addFrames sp t1 fs1 [] = [?N1]"
      unfolding Cons by (simp add: addFrames.simps(2) Let_def extract_Nil_code)
    have eq2: "addFrames sp t2 (f2 # fs2) [] = [?N2]"
      by (simp add: addFrames.simps(2) Let_def extract_Nil_code)
    show ?thesis
    proof (cases rule: addFrames_cases[of f2 sp "[?N1]" t2 fs2])
      case create
      show ?thesis unfolding eq1 eq2 create(2) using level_append[of d "[?N1]" "[?N2]"] by simp
    next
      case (reuse before n after)
      from reuse(2) have n: "n = ?N1" "before = []" "after = []"
        by (simp_all add: Cons_eq_append_conv)
      show ?thesis
      proof (cases d)
        case 0
        with Cons.prems(2) reuse(1) show ?thesis by simp
      next
        case (Suc d')
        with Cons.prems have "d' < length fs2" "canonicalId (fs2 ! d') \<in> set sp" by simp_all
        from Cons.IH[OF this, of fs1'] show ?thesis unfolding eq1 eq2 reuse(5) Suc n
          by simp
      qed
    qed
  qed
qed

lemma canonicalId_frameKey: "frameKey a = frameKey b \<Longrightarrow> canonicalId a = canonicalId b"
  by (rule canonicalId_cong) (simp add: isSameFrame_frameKey)

text \<open>
  Claim C3: a frame whose canonical id is in the split set is never matched against the
  siblings; a new node is pushed whose id is the canonical id, the split marker and the
  thread's id, with that thread as its only member. In the forest returned, every node
  whose id contains the marker has exactly one member, a thread of the input. For two
  threads whose frame sequences have the same name, line, column and path at every depth,
  with a split frame at depth \<open>d\<close>, the nodes at depth \<open>d\<close> are exactly the two split nodes,
  one for each thread.
\<close>

theorem split_creates_exclusive_node:
  "(canonicalId frame \<in> set splitNodes \<longrightarrow>
      addFrames splitNodes thread (frame # frames) nodes =
        nodes @ [splitNode thread frame (addFrames splitNodes thread frames [])] \<and>
      includes_str (n_id (splitNode thread frame cs)) splitMarker) \<and>
   forest_all (\<lambda>n. includes_str (n_id n) splitMarker \<longrightarrow>
       list_ex (\<lambda>t. n_threadIds n = [t_id t] \<and> n_threadNames n = [t_name t]) threadsData)
     (buildGraph threadsData splitNodes) \<and>
   (map frameKey (t_frames t1) = map frameKey (t_frames t2) \<and> d < length (t_frames t1) \<and>
    canonicalId (t_frames t1 ! d) \<in> set splitNodes \<longrightarrow>
      level d (buildGraph [t1, t2] splitNodes) =
        [splitNode t1 (t_frames t1 ! d) (addFrames splitNodes t1 (drop (Suc d) (t_frames t1)) []),
         splitNode t2 (t_frames t2 ! d) (addFrames splitNodes t2 (drop (Suc d) (t_frames t2)) [])])"
proof (intro conjI impI)
  assume "canonicalId frame \<in> set splitNodes"
  then show "addFrames splitNodes thread (frame # frames) nodes =
        nodes @ [splitNode thread frame (addFrames splitNodes thread frames [])]"
    by (simp add: addFrames_split_step splitNode_def)
next
  show "includes_str (n_id (splitNode thread frame cs)) splitMarker"
    by (simp add: splitNode_def includes_str_append)
next
  show "forest_all (\<lambda>n. includes_str (n_id n) splitMarker \<longrightarrow>
       list_ex (\<lambda>t. n_threadIds n = [t_id t] \<and> n_threadNames n = [t_name t]) threadsData)
     (buildGraph threadsData splitNodes)"
    by (rule marker_nodes_exclusive)
next
  assume a: "map frameKey (t_frames t1) = map frameKey (t_frames t2) \<and> d < length (t_frames t1) \<and>
    canonicalId (t_frames t1 ! d) \<in> set splitNodes"
  then have d1: "d < length (t_frames t1)" and c1: "canonicalId (t_frames t1 ! d) \<in> set splitNodes"
    and e: "map frameKey (t_frames t1) = map frameKey (t_frames t2)" by auto
  from e have "length (t_frames t1) = length (t_frames t2)" by (rule map_eq_imp_length_eq)
  with d1 have d2: "d < length (t_frames t2)" by simp
  from e d1 d2 have "frameKey (t_frames t1 ! d) = frameKey (t_frames t2 ! d)"
    by (metis nth_map)
  then have "canonicalId (t_frames t1 ! d) = canonicalId (t_frames t2 ! d)"
    by (rule canonicalId_frameKey)
  with c1 have c2: "canonicalId (t_frames t2 ! d) \<in> set splitNodes" by simp
  have "level d (buildGraph [t1, t2] splitNodes) =
     level d (addFrames splitNodes t1 (t_frames t1) []) @ level d (addFrames splitNodes t2 (t_frames t2) [])"
    using level_two_threads[OF d2 c2, of t2 t1 "t_frames t1"] by (simp add: buildGraph_def)
  with d1 d2 c1 c2 show "level d (buildGraph [t1, t2] splitNodes) =
        [splitNode t1 (t_frames t1 ! d) (addFrames splitNodes t1 (drop (Suc d) (t_frames t1)) []),
         splitNode t2 (t_frames t2 ! d) (addFrames splitNodes t2 (drop (Suc d) (t_frames t2)) [])]"
    by (simp add: level_single_thread splitNode_def)
qed

theorem split_creates_exclusive_node_witness:
  "canonicalId (t_frames (identicalThreads ! 0) ! 1) \<in> set [''main.cpp:10:1:foo''] \<and>
   map frameKey (t_frames (identicalThreads ! 0)) = map frameKey (t_frames (identicalThreads ! 1)) \<and>
   map n_id (level 1 (buildGraph [identicalThreads ! 0, identicalThreads ! 1] [''main.cpp:10:1:foo''])) =
     [''main.cpp:10:1:foo::split::1'', ''main.cpp:10:1:foo::split::2''] \<and>
   map n_threadIds (level 1 (buildGraph [identicalThreads ! 0, identicalThreads ! 1] [''main.cpp:10:1:foo''])) =
     [[1], [2]]"
proof -
  have h: "canonicalId (t_frames (identicalThreads ! 0) ! 1) \<in> set [''main.cpp:10:1:foo'']"
     "map frameKey (t_frames (identicalThreads ! 0)) = map frameKey (t_frames (identicalThreads ! 1))"
     "1 < length (t_frames (identicalThreads ! 0))"
    by code_simp+
  have v: "n_id (splitNode (identicalThreads ! 0) (t_frames (identicalThreads ! 0) ! 1) cs) = ''main.cpp:10:1:foo::split::1''"
     "n_id (splitNode (identicalThreads ! 1) (t_frames (identicalThreads ! 1) ! 1) cs) = ''main.cpp:10:1:foo::split::2''"
     "n_threadIds (splitNode (identicalThreads ! 0) (t_frames (identicalThreads ! 0) ! 1) cs) = [1]"
     "n_threadIds (splitNode (identicalThreads ! 1) (t_frames (identicalThreads ! 1) ! 1) cs) = [2]" for cs
    by (simp_all add: splitNode_def identicalThreads_def mkThread_def mkFrame_def canonicalId_def
        sourcePath_def showPath_def showInt_def showNat_small showNat_big splitMarker_def)
  from split_creates_exclusive_node [of "t_frames (identicalThreads ! 0) ! 1" "[''main.cpp:10:1:foo'']"
      "identicalThreads ! 0" "[]" "[]" "[]" "[]" "identicalThreads ! 0" "identicalThreads ! 1" 1] h
  have "level 1 (buildGraph [identicalThreads ! 0, identicalThreads ! 1] [''main.cpp:10:1:foo'']) =
        [splitNode (identicalThreads ! 0) (t_frames (identicalThreads ! 0) ! 1)
           (addFrames [''main.cpp:10:1:foo''] (identicalThreads ! 0) (drop (Suc 1) (t_frames (identicalThreads ! 0))) []),
         splitNode (identicalThreads ! 1) (t_frames (identicalThreads ! 1) ! 1)
           (addFrames [''main.cpp:10:1:foo''] (identicalThreads ! 1) (drop (Suc 1) (t_frames (identicalThreads ! 1))) [])]"
    by blast
  then show ?thesis using h v by simp
qed

section \<open>Siblings\<close>

lemma distinctSiblings_grouped:
  assumes "distinctSiblings nodes" "forest_all (\<lambda>n. distinctSiblings (n_children n)) nodes"
  shows "distinctSiblings (addFrames sp th fs nodes) \<and>
         forest_all (\<lambda>n. distinctSiblings (n_children n)) (addFrames sp th fs nodes)"
  using assms
proof (induction fs arbitrary: nodes)
  case Nil
  then show ?case by simp
next
  case (Cons f fs)
  show ?case
  proof (cases rule: addFrames_cases[of f sp nodes th fs])
    case create
    let ?new = "setChildren (addThread th (newNode (canonicalId f \<in> set sp) th f)) (addFrames sp th fs [])"
    have kids: "distinctSiblings (addFrames sp th fs []) \<and>
         forest_all (\<lambda>n. distinctSiblings (n_children n)) (addFrames sp th fs [])"
      by (rule Cons.IH) (simp_all add: distinctSiblings_def)
    have top: "distinctSiblings (nodes @ [?new])"
    proof (cases "includes_str (n_id ?new) splitMarker")
      case True
      then show ?thesis using Cons.prems(1) by (simp add: distinctSiblings_def)
    next
      case False
      then have ns: "canonicalId f \<notin> set sp"
        by (auto simp: newNode_id includes_str_append)
      with create(1) have none: "\<not> list_ex (reusable f) nodes" by simp
      have "frameKey f \<notin> (\<lambda>n. frameKey (n_frame n)) ` {n \<in> set nodes. \<not> includes_str (n_id n) splitMarker}"
        using none by (auto simp: list_ex_iff reusable_def isSameFrame_frameKey)
      then show ?thesis using False Cons.prems(1) by (simp add: distinctSiblings_def)
    qed
    show ?thesis using create(2) top kids Cons.prems(2) by simp
  next
    case (reuse before n after)
    let ?n' = "setChildren (addThread th n) (addFrames sp th fs (n_children n))"
    from Cons.prems(2) reuse(2) have pre: "distinctSiblings (n_children n)"
      "forest_all (\<lambda>n. distinctSiblings (n_children n)) (n_children n)"
      "forest_all (\<lambda>n. distinctSiblings (n_children n)) before"
      "forest_all (\<lambda>n. distinctSiblings (n_children n)) after"
      by simp_all
    have kids: "distinctSiblings (addFrames sp th fs (n_children n)) \<and>
         forest_all (\<lambda>n. distinctSiblings (n_children n)) (addFrames sp th fs (n_children n))"
      by (rule Cons.IH) (use pre in simp_all)
    have "map (\<lambda>n. frameKey (n_frame n))
            (filter (\<lambda>n. \<not> includes_str (n_id n) splitMarker) (before @ ?n' # after)) =
          map (\<lambda>n. frameKey (n_frame n))
            (filter (\<lambda>n. \<not> includes_str (n_id n) splitMarker) (before @ n # after))"
      by simp
    then have top: "distinctSiblings (before @ ?n' # after)"
      using Cons.prems(1) reuse(2) unfolding distinctSiblings_def by simp
    show ?thesis using reuse(5) top kids pre by simp
  qed
qed

lemma buildGraph_grouped:
  "distinctSiblings (buildGraph ts sp) \<and>
   forest_all (\<lambda>n. distinctSiblings (n_children n)) (buildGraph ts sp)"
proof -
  have "distinctSiblings acc \<and> forest_all (\<lambda>n. distinctSiblings (n_children n)) acc \<Longrightarrow>
    distinctSiblings (foldl (\<lambda>rootNodes thread. addFrames sp thread (t_frames thread) rootNodes) acc ts) \<and>
    forest_all (\<lambda>n. distinctSiblings (n_children n))
      (foldl (\<lambda>rootNodes thread. addFrames sp thread (t_frames thread) rootNodes) acc ts)" for acc
  proof (induction ts arbitrary: acc)
    case Nil
    then show ?case by simp
  next
    case (Cons t ts)
    show ?case using Cons.IH[OF distinctSiblings_grouped[of acc sp t "t_frames t"]] Cons.prems by simp
  qed
  from this[of "[]"] show ?thesis by (simp add: buildGraph_def distinctSiblings_def)
qed

text \<open>
  Claim C4, read on the identity strings of the nodes, fails: two frames that differ for
  \<open>isSameFrame\<close> but have the same canonical id give two sibling roots with the same id,
  neither of them a split node.
\<close>

theorem sibling_ids_can_coincide: "\<not> distinctSiblingIds (buildGraph collidingThreads [])"
  by code_simp

text \<open>
  Claim C4, amended: in the root list and in every node's children list, no two nodes
  whose id does not contain the split marker have the same name, line, column and source
  path, which is what \<open>isSameFrame\<close> compares.
\<close>

theorem siblings_distinct_frames:
  "distinctSiblings (buildGraph threadsData splitNodes) \<and>
   forest_all (\<lambda>n. distinctSiblings (n_children n)) (buildGraph threadsData splitNodes)"
  by (rule buildGraph_grouped)

section \<open>Identical frame sequences without the marker\<close>

lemma newNode_threadIds [simp]: "n_threadIds (newNode b th f) = []"
  by (simp add: newNode_def Let_def)

lemma chainOf_Cons:
  "chainOf (k # ks) S nodes =
     (\<exists>n. nodes = [n] \<and> frameKey (n_frame n) = k \<and> \<not> includes_str (n_id n) splitMarker \<and>
        set (n_threadIds n) = S \<and> chainOf ks S (n_children n))"
  by (auto split: list.splits)

declare chainOf.simps(2) [simp del]

lemma addThread_threadIds [simp]:
  "set (n_threadIds (addThread th n)) = insert (t_id th) (set (n_threadIds n))"
  by (auto simp: addThread_def Let_def)

lemma chainOf_first:
  assumes "\<forall>f \<in> set fs. canonicalId f \<notin> set sp \<and> \<not> includes_str (canonicalId f) splitMarker"
  shows "chainOf (map frameKey fs) {t_id th} (addFrames sp th fs [])"
  using assms
proof (induction fs)
  case Nil
  then show ?case by simp
next
  case (Cons f fs)
  show ?case
  proof (cases rule: addFrames_cases[of f sp "[]" th fs])
    case create
    with Cons show ?thesis
      by (simp add: chainOf_Cons newNode_id)
  next
    case (reuse before n after)
    then show ?thesis by simp
  qed
qed

lemma chainOf_next:
  assumes "\<forall>f \<in> set fs. canonicalId f \<notin> set sp \<and> \<not> includes_str (canonicalId f) splitMarker"
    and "chainOf (map frameKey fs) S nodes"
  shows "chainOf (map frameKey fs) (insert (t_id th) S) (addFrames sp th fs nodes)"
  using assms
proof (induction fs arbitrary: nodes)
  case Nil
  then show ?case by simp
next
  case (Cons f fs)
  from Cons.prems(2) obtain n where n: "nodes = [n]" "frameKey (n_frame n) = frameKey f"
    "\<not> includes_str (n_id n) splitMarker" "set (n_threadIds n) = S"
    "chainOf (map frameKey fs) S (n_children n)"
    by (auto simp: chainOf_Cons)
  have r: "reusable f n" using n(2,3) by (simp add: reusable_def isSameFrame_frameKey)
  show ?case
  proof (cases rule: addFrames_cases[of f sp nodes th fs])
    case create
    with Cons.prems(1) r n(1) show ?thesis by simp
  next
    case (reuse before m after)
    from reuse(2) n(1) have m: "m = n" "before = []" "after = []"
      by (simp_all add: Cons_eq_append_conv)
    have "chainOf (map frameKey fs) (insert (t_id th) S) (addFrames sp th fs (n_children n))"
      by (rule Cons.IH) (use Cons.prems(1) n(5) in simp_all)
    then show ?thesis unfolding reuse(5) m using n by (simp add: chainOf_Cons)
  qed
qed

lemma chainOf_shape:
  "chainOf ks S nodes \<Longrightarrow>
     isChain nodes \<and> forest_all (\<lambda>n. set (n_threadIds n) = S) nodes \<and> (ks \<noteq> [] \<longrightarrow> length nodes = 1)"
proof (induction ks arbitrary: nodes)
  case Nil
  then show ?case by simp
next
  case (Cons k ks)
  from Cons.prems obtain n where n: "nodes = [n]" "set (n_threadIds n) = S" "chainOf ks S (n_children n)"
    by (auto simp: chainOf_Cons)
  from Cons.IH[OF n(3)] n(1,2) show ?case by (cases n) simp
qed

text \<open>
  Full merge, for inputs in which no canonical id is split or contains the marker:
  threads with the same frame tuples at every depth give one chain, and every node has
  all the threads as members.
\<close>

lemma full_merge_without_marker:
  assumes ne: "threadsData \<noteq> []"
    and same: "\<forall>t \<in> set threadsData. map frameKey (t_frames t) = ks" and ks: "ks \<noteq> []"
    and ok: "\<forall>t \<in> set threadsData. \<forall>f \<in> set (t_frames t).
               canonicalId f \<notin> set splitNodes \<and> \<not> includes_str (canonicalId f) splitMarker"
  shows "isChain (buildGraph threadsData splitNodes) \<and>
         length (buildGraph threadsData splitNodes) = 1 \<and>
         forest_all (\<lambda>n. set (n_threadIds n) = t_id ` set threadsData) (buildGraph threadsData splitNodes)"
proof -
  have step: "chainOf ks S acc \<Longrightarrow> \<forall>t \<in> set ts. map frameKey (t_frames t) = ks \<and> (\<forall>f \<in> set (t_frames t).
               canonicalId f \<notin> set splitNodes \<and> \<not> includes_str (canonicalId f) splitMarker) \<Longrightarrow>
     chainOf ks (S \<union> t_id ` set ts)
       (foldl (\<lambda>rootNodes thread. addFrames splitNodes thread (t_frames thread) rootNodes) acc ts)" for S acc ts
  proof (induction ts arbitrary: S acc)
    case Nil
    then show ?case by simp
  next
    case (Cons t ts)
    have "chainOf (map frameKey (t_frames t)) (insert (t_id t) S) (addFrames splitNodes t (t_frames t) acc)"
      by (rule chainOf_next) (use Cons.prems in simp_all)
    then have "chainOf ks (insert (t_id t) S) (addFrames splitNodes t (t_frames t) acc)"
      using Cons.prems(2) by simp
    from Cons.IH[OF this] Cons.prems(2) show ?case by simp
  qed
  from ne obtain t ts where ts: "threadsData = t # ts" by (cases threadsData) auto
  have "chainOf (map frameKey (t_frames t)) {t_id t} (addFrames splitNodes t (t_frames t) [])"
    by (rule chainOf_first) (use ok ts in simp)
  then have "chainOf ks {t_id t} (addFrames splitNodes t (t_frames t) [])"
    using same ts by simp
  from step[OF this, of ts] same ok ts
  have "chainOf ks (t_id ` set threadsData) (buildGraph threadsData splitNodes)"
    by (simp add: buildGraph_def)
  from chainOf_shape[OF this] ks show ?thesis by simp
qed

section \<open>Membership and the threads that pass through a chain\<close>

lemma membNode_sel:
  "membNode sp W n =
     (set (n_threadIds n) = (\<lambda>(t, fs). t_id t) ` set (descend sp n W) \<and>
      list_all (membNode sp (descend sp n W)) (n_children n))"
  by (cases n) simp

lemma invNode_sel:
  "invNode sp W n =
     (set (n_threadIds n) = (\<lambda>(t, fs). t_id t) ` set (descend sp n W) \<and>
      (if includes_str (n_id n) splitMarker
       then list_all (membNode sp (descend sp n W)) (n_children n)
       else complTop sp (descend sp n W) (n_children n) \<and>
            list_all (invNode sp (descend sp n W)) (n_children n)))"
  by (cases n) simp

lemma set_descend:
  "set (descend sp n W) = {(t, fs). \<exists>f. (t, f # fs) \<in> set W \<and> frameEntersNode sp t f n}"
proof -
  have "\<And>t fs. (t, fs) \<in> set (descend sp n W) \<longleftrightarrow> (\<exists>f. (t, f # fs) \<in> set W \<and> frameEntersNode sp t f n)"
  proof -
    fix t fs
    show "(t, fs) \<in> set (descend sp n W) \<longleftrightarrow> (\<exists>f. (t, f # fs) \<in> set W \<and> frameEntersNode sp t f n)"
    proof
      assume "(t, fs) \<in> set (descend sp n W)"
      then obtain gs where "(t, gs) \<in> set W" "gs \<noteq> []" "frameEntersNode sp t (hd gs) n" "fs = tl gs"
        by (auto simp: descend_def)
      then show "\<exists>f. (t, f # fs) \<in> set W \<and> frameEntersNode sp t f n"
        by (cases gs) auto
    next
      assume "\<exists>f. (t, f # fs) \<in> set W \<and> frameEntersNode sp t f n"
      then show "(t, fs) \<in> set (descend sp n W)"
        by (force simp: descend_def)
    qed
  qed
  then show ?thesis by auto
qed

lemma descend_Nil [simp]: "descend sp n [] = []"
  by (simp add: descend_def)

lemma descend_Cons:
  "descend sp n ((t, fs) # W) =
     (if fs \<noteq> [] \<and> frameEntersNode sp t (hd fs) n then (t, tl fs) # descend sp n W
      else descend sp n W)"
  by (simp add: descend_def)

lemma frameEntersNode_cong:
  "n_id n' = n_id n \<Longrightarrow> frameKey (n_frame n') = frameKey (n_frame n) \<Longrightarrow>
   frameEntersNode sp t f n' = frameEntersNode sp t f n"
  by (simp add: frameEntersNode_def isSameFrame_frameKey)

lemma descend_cong:
  "n_id n' = n_id n \<Longrightarrow> frameKey (n_frame n') = frameKey (n_frame n) \<Longrightarrow>
   descend sp n' W = descend sp n W"
  by (simp add: descend_def frameEntersNode_cong[of n' n])

lemma descend_setChildren [simp]: "descend sp (setChildren n cs) W = descend sp n W"
  by (rule descend_cong) simp_all

lemma descend_addThread [simp]: "descend sp (addThread th n) W = descend sp n W"
  by (rule descend_cong) simp_all

lemma rev_marker_suffix:
  "rev (x @ splitMarker @ showInt i) = rev (showInt i) @ CHR '':'' # (rev '':split:'' @ CHR '':'' # rev x)"
  by (simp add: splitMarker_def)

lemma split_id_inj:
  assumes "x @ splitMarker @ showInt i = y @ splitMarker @ showInt j"
  shows "i = j"
proof -
  from assms have "rev (x @ splitMarker @ showInt i) = rev (y @ splitMarker @ showInt j)" by simp
  then have e: "rev (showInt i) @ CHR '':'' # (rev '':split:'' @ CHR '':'' # rev x) =
      rev (showInt j) @ CHR '':'' # (rev '':split:'' @ CHR '':'' # rev y)"
    by (simp only: rev_marker_suffix)
  have "CHR '':'' \<notin> set (rev (showInt i))" "CHR '':'' \<notin> set (rev (showInt j))"
    using showInt_no_colon by simp_all
  from split_at_colon[OF this e] have "showInt i = showInt j" by simp
  then show ?thesis by (rule showInt_inj)
qed

lemma canonicalId_more [simp]:
  "canonicalId (n_frame (addThread th n)) = canonicalId (n_frame n)"
  "canonicalId (n_frame (newNode b th f)) = canonicalId f"
  by (simp_all add: canonicalId_def addThread_def newNode_def Let_def sourcePath_def)

lemma enters_unsplit:
  assumes "canonicalId f \<notin> set sp" "\<not> includes_str (canonicalId f) splitMarker" "nodeOk n"
  shows "frameEntersNode sp t f n = reusable f n"
proof
  assume "frameEntersNode sp t f n"
  with assms(1,2) show "reusable f n" by (simp add: frameEntersNode_def reusable_def)
next
  assume r: "reusable f n"
  then have "n_id n = canonicalId (n_frame n)" using assms(3) by (simp add: nodeOk_def reusable_def)
  moreover have "canonicalId (n_frame n) = canonicalId f"
    using r by (intro canonicalId_cong) (simp add: reusable_def)
  ultimately show "frameEntersNode sp t f n"
    using r assms(1) by (simp add: frameEntersNode_def reusable_def)
qed

lemma enters_marker_node:
  assumes "frameEntersNode sp t f n" "includes_str (n_id n) splitMarker" "nodeOk n"
    "canonicalId f \<in> set sp \<or> \<not> includes_str (canonicalId f) splitMarker"
  shows "n_threadIds n = [t_id t]"
proof -
  from assms(1,2,4) have sp: "canonicalId f \<in> set sp"
    and i: "n_id n = canonicalId f @ splitMarker @ showInt (t_id t)"
    by (auto simp: frameEntersNode_def split: if_splits)
  from assms(2,3) have l: "length (n_threadIds n) = 1"
    and sfx: "suffix (splitMarker @ showInt (hd (n_threadIds n))) (n_id n)"
    by (simp_all add: nodeOk_def)
  from l obtain j where j: "n_threadIds n = [j]" by (cases "n_threadIds n") auto
  from sfx j obtain x where "n_id n = x @ splitMarker @ showInt j" "n_threadIds n = [j]"
    by (auto simp: suffix_def)
  with i show ?thesis using split_id_inj[of x j "canonicalId f" "t_id t"] by simp
qed

lemma frameEntersNode_more [simp]:
  "frameEntersNode sp t f (addThread th n) = frameEntersNode sp t f n"
  "frameEntersNode sp t f (setChildren n cs) = frameEntersNode sp t f n"
  by (rule frameEntersNode_cong; simp)+

lemma enters_created:
  "frameEntersNode sp th f (addThread th (newNode (canonicalId f \<in> set sp) th f))"
  by (simp add: frameEntersNode_def newNode_id isSameFrame_frameKey)

lemma single_thread_memb:
  assumes "(th, fs) \<in> set W" "\<forall>(t, gs) \<in> set W. t_id t = t_id th"
  shows "list_all (membNode sp W) (addFrames sp th fs [])"
  using assms
proof (induction fs arbitrary: W)
  case Nil
  then show ?case by simp
next
  case (Cons f fs)
  let ?new = "addThread th (newNode (canonicalId f \<in> set sp) th f)"
  have eq: "addFrames sp th (f # fs) [] = [setChildren ?new (addFrames sp th fs [])]"
    by (simp add: addFrames.simps(2) Let_def extract_Nil_code)
  have in': "(th, fs) \<in> set (descend sp ?new W)"
    using Cons.prems(1) enters_created[of sp th f] by (auto simp: set_descend)
  have all': "\<forall>(t, gs) \<in> set (descend sp ?new W). t_id t = t_id th"
    using Cons.prems(2) by (auto simp: set_descend)
  have "(\<lambda>(t, fs). t_id t) ` set (descend sp ?new W) = {t_id th}"
    using in' all' by force
  moreover have "list_all (membNode sp (descend sp ?new W)) (addFrames sp th fs [])"
    by (rule Cons.IH[OF in' all'])
  ultimately show ?case unfolding eq by (simp add: membNode_sel)
qed

lemma memb_mono:
  assumes "membNode sp W1 n" "node_all (\<lambda>n. n_threadIds n \<noteq> []) n"
    "set W1 \<subseteq> set W2" "\<forall>(t, gs) \<in> set W2. t_id t = j"
  shows "membNode sp W2 n"
  using assms
proof (induction n arbitrary: W1 W2)
  case (GraphNode i fr cs ids names)
  let ?n = "GraphNode i fr cs ids names"
  have sub: "set (descend sp ?n W1) \<subseteq> set (descend sp ?n W2)"
    using GraphNode.prems(3) by (auto simp: set_descend)
  have allj: "\<forall>(t, gs) \<in> set (descend sp ?n W2). t_id t = j"
    using GraphNode.prems(4) by (auto simp: set_descend)
  from GraphNode.prems(1) have ids: "set ids = (\<lambda>(t, fs). t_id t) ` set (descend sp ?n W1)"
    and kids: "list_all (membNode sp (descend sp ?n W1)) cs" by simp_all
  from GraphNode.prems(2) have ne: "ids \<noteq> []" and kne: "list_all (node_all (\<lambda>n. n_threadIds n \<noteq> [])) cs"
    by simp_all
  from ne ids obtain w where w: "w \<in> set (descend sp ?n W1)" by (cases ids) auto
  have "(\<lambda>(t, fs). t_id t) ` set (descend sp ?n W1) = {j}"
    using w sub allj by force
  moreover have "(\<lambda>(t, fs). t_id t) ` set (descend sp ?n W2) = {j}"
    using w sub allj by force
  moreover have "list_all (membNode sp (descend sp ?n W2)) cs"
    unfolding list_all_iff
  proof
    fix c assume c: "c \<in> set cs"
    have m1: "membNode sp (descend sp ?n W1) c" using c kids by (simp add: list_all_iff)
    have m2: "node_all (\<lambda>n. n_threadIds n \<noteq> []) c" using c kne by (simp add: list_all_iff)
    show "membNode sp (descend sp ?n W2) c"
      by (rule GraphNode.IH[OF c m1 m2 sub allj])
  qed
  ultimately show ?case using ids by simp
qed

lemma passes_Nil [simp]: "passes sp t fs [] = True"
  by (simp add: passes_def)

lemma passes_Cons:
  "passes sp t fs (n # c) = (\<exists>f fs'. fs = f # fs' \<and> frameEntersNode sp t f n \<and> passes sp t fs' c)"
  by (cases fs) (auto simp: passes_def)

lemma nodeChains_sel:
  "nodeChains n = [n] # map ((#) n) (chains (n_children n))"
  by (cases n) (simp add: chains_def)

lemma chain_membership_node:
  assumes "membNode sp W n" "c \<in> set (nodeChains n)"
  shows "set (n_threadIds (last c)) = {t_id t |t fs. (t, fs) \<in> set W \<and> passes sp t fs c}"
  using assms
proof (induction n arbitrary: W c)
  case (GraphNode i fr cs ids names)
  let ?n = "GraphNode i fr cs ids names"
  from GraphNode.prems(1) have ids: "set ids = (\<lambda>(t, fs). t_id t) ` set (descend sp ?n W)"
    and kids: "list_all (membNode sp (descend sp ?n W)) cs" by simp_all
  from GraphNode.prems(2) consider "c = [?n]"
    | m c' where "m \<in> set cs" "c' \<in> set (nodeChains m)" "c = ?n # c'"
    by (auto simp: chains_def)
  then show ?case
  proof cases
    case 1
    have "(\<lambda>(t, fs). t_id t) ` set (descend sp ?n W) =
        {t_id t |t fs. (t, fs) \<in> set W \<and> passes sp t fs [?n]}"
      by (auto simp: set_descend passes_Cons)
    with 1 ids show ?thesis by simp
  next
    case 2
    from 2(2) have ne: "c' \<noteq> []" by (cases m) auto
    have m: "membNode sp (descend sp ?n W) m" using kids 2(1) by (simp add: list_all_iff)
    from GraphNode.IH[OF 2(1) m 2(2)]
    have "set (n_threadIds (last c')) =
       {t_id t |t fs. (t, fs) \<in> set (descend sp ?n W) \<and> passes sp t fs c'}" .
    also have "\<dots> = {t_id t |t fs. (t, fs) \<in> set W \<and> passes sp t fs (?n # c')}"
      by (auto simp: set_descend passes_Cons)
    finally show ?thesis using 2(3) ne by simp
  qed
qed

lemma chain_membership:
  assumes "list_all (membNode sp W) nodes" "c \<in> set (chains nodes)"
  shows "set (n_threadIds (last c)) = {t_id t |t fs. (t, fs) \<in> set W \<and> passes sp t fs c}"
proof -
  from assms(2) obtain n where "n \<in> set nodes" "c \<in> set (nodeChains n)"
    by (auto simp: chains_def)
  with assms(1) show ?thesis by (intro chain_membership_node) (auto simp: list_all_iff)
qed

lemma reusable_more [simp]:
  "reusable f (addThread th n) = reusable f n"
  "reusable f (setChildren n cs) = reusable f n"
  by (simp_all add: reusable_def isSameFrame_frameKey)

lemma forest_all_mem:
  "forest_all P nodes \<Longrightarrow> m \<in> set nodes \<Longrightarrow> P m \<and> forest_all P (n_children m)"
  by (induction nodes) auto

lemma node_all_mono:
  "(\<And>n. P n \<Longrightarrow> Q n) \<Longrightarrow> node_all P n \<Longrightarrow> node_all Q n"
proof (induction n)
  case (GraphNode i fr cs ids names)
  then show ?case by (auto simp: list_all_iff)
qed

lemma forest_all_node: "forest_all P cs \<Longrightarrow> c \<in> set cs \<Longrightarrow> node_all P c"
  by (simp add: forest_all_def list_all_iff)

lemma invNode_not_entered:
  "\<not> frameEntersNode sp th f n \<Longrightarrow> invNode sp ((th, f # fs) # W) n = invNode sp W n"
  by (simp add: invNode_sel descend_Cons)

lemma invNode_no_frames: "invNode sp ((th, []) # W) n = invNode sp W n"
  by (simp add: invNode_sel descend_Cons)

lemma complTop_append: "complTop sp W nodes \<Longrightarrow> complTop sp W (nodes @ extra)"
  by (auto simp: complTop_def list_all_iff list_ex_iff)

lemma complTop_replace:
  "complTop sp W (before @ n # after) \<Longrightarrow> (\<And>g. reusable g n' = reusable g n) \<Longrightarrow>
   complTop sp W (before @ n' # after)"
  by (simp add: complTop_def list_all_iff list_ex_iff)

lemma complTop_Cons:
  "complTop sp ((t, fs) # W) nodes =
     ((fs \<noteq> [] \<and> canonicalId (hd fs) \<notin> set sp \<longrightarrow> list_ex (reusable (hd fs)) nodes) \<and>
      complTop sp W nodes)"
  by (simp add: complTop_def)

lemma distinct_after:
  assumes "distinctSiblings (before @ n # after)" "reusable f n" "m \<in> set after"
  shows "\<not> reusable f m"
proof
  assume "reusable f m"
  with assms(2) have k: "frameKey (n_frame m) = frameKey (n_frame n)"
    and pn: "\<not> includes_str (n_id n) splitMarker" and pm: "\<not> includes_str (n_id m) splitMarker"
    by (simp_all add: reusable_def isSameFrame_frameKey)
  from assms(1) pn have "frameKey (n_frame n) \<notin>
      (\<lambda>n. frameKey (n_frame n)) ` set (filter (\<lambda>n. \<not> includes_str (n_id n) splitMarker) after)"
    by (simp add: distinctSiblings_def)
  moreover have "m \<in> set (filter (\<lambda>n. \<not> includes_str (n_id n) splitMarker) after)"
    using assms(3) pm by simp
  ultimately show False using k by (metis imageI)
qed

lemma created_threadIds [simp]: "n_threadIds (addThread th (newNode b th f)) = [t_id th]"
  by (simp add: addThread_newNode)

lemma nodeOk_created:
  assumes "canonicalId f \<in> set sp \<or> \<not> includes_str (canonicalId f) splitMarker"
  shows "nodeOk (addThread th (newNode (canonicalId f \<in> set sp) th f))"
proof (cases "canonicalId f \<in> set sp")
  case True
  have "suffix (splitMarker @ showInt (t_id th)) (canonicalId f @ splitMarker @ showInt (t_id th))"
    by (rule suffixI) simp
  with True show ?thesis
    by (simp add: nodeOk_def newNode_id includes_str_append)
next
  case False
  with assms show ?thesis by (simp add: nodeOk_def newNode_id)
qed

lemma addFrames_inv:
  assumes "noMarkerUnlessSplit sp fs"
    and "\<forall>(t, gs) \<in> set W. noMarkerUnlessSplit sp gs"
    and "forest_all nodeOk nodes"
    and "distinctSiblings nodes"
    and "forest_all (\<lambda>n. distinctSiblings (n_children n)) nodes"
    and "complTop sp W nodes"
    and "list_all (invNode sp W) nodes"
  shows "complTop sp ((th, fs) # W) (addFrames sp th fs nodes) \<and>
         list_all (invNode sp ((th, fs) # W)) (addFrames sp th fs nodes)"
  using assms
proof (induction fs arbitrary: W nodes)
  case Nil
  then show ?case by (simp add: complTop_Cons invNode_no_frames)
next
  case (Cons f fs)
  let ?Wn = "(th, f # fs) # W"
  from Cons.prems(1) have Hf: "canonicalId f \<in> set sp \<or> \<not> includes_str (canonicalId f) splitMarker"
    and Hfs: "noMarkerUnlessSplit sp fs"
    by (simp_all add: noMarkerUnlessSplit_def)
  have HW: "canonicalId g \<in> set sp \<or> \<not> includes_str (canonicalId g) splitMarker"
    if "(t, g # gs) \<in> set W" for t g gs
    using Cons.prems(2) that by (force simp: noMarkerUnlessSplit_def)
  have okn: "nodeOk m" if "m \<in> set nodes" for m
    using forest_all_mem[OF Cons.prems(3) that] by simp
  have old: "invNode sp W m" if "m \<in> set nodes" for m
    using Cons.prems(7) that by (simp add: list_all_iff)
  show ?case
  proof (cases rule: addFrames_cases[of f sp nodes th fs])
    case create
    let ?new = "addThread th (newNode (canonicalId f \<in> set sp) th f)"
    let ?kids = "addFrames sp th fs []"
    have oknew: "nodeOk ?new" by (rule nodeOk_created[OF Hf])
    show ?thesis
    proof (cases "canonicalId f \<in> set sp")
      case True
      have mknew: "includes_str (n_id ?new) splitMarker"
        using True by (simp add: newNode_id includes_str_append)
      have ex: "invNode sp ?Wn m" if m: "m \<in> set nodes" for m
      proof (cases "frameEntersNode sp th f m")
        case False
        then show ?thesis using old[OF m] by (simp add: invNode_not_entered)
      next
        case ent: True
        then have mk: "includes_str (n_id m) splitMarker"
          using True by (simp add: frameEntersNode_def includes_str_append)
        have ids: "n_threadIds m = [t_id th]"
          by (rule enters_marker_node[OF ent mk okn[OF m] Hf])
        from old[OF m] mk have img: "set (n_threadIds m) = (\<lambda>(t, fs). t_id t) ` set (descend sp m W)"
          and kids: "list_all (membNode sp (descend sp m W)) (n_children m)"
          by (simp_all add: invNode_sel)
        have allj: "\<forall>(t, gs) \<in> set ((th, fs) # descend sp m W). t_id t = t_id th"
          using img ids by auto
        have "list_all (membNode sp ((th, fs) # descend sp m W)) (n_children m)"
          unfolding list_all_iff
        proof
          fix c assume c: "c \<in> set (n_children m)"
          have m1: "membNode sp (descend sp m W) c" using kids c by (simp add: list_all_iff)
          have "forest_all nodeOk (n_children m)"
            using forest_all_mem[OF Cons.prems(3) m] by simp
          from forest_all_node[OF this c] have m2: "node_all (\<lambda>n. n_threadIds n \<noteq> []) c"
            by (rule node_all_mono[rotated]) (simp add: nodeOk_def)
          show "membNode sp ((th, fs) # descend sp m W) c"
            by (rule memb_mono[OF m1 m2 _ allj]) auto
        qed
        moreover have dm: "descend sp m ?Wn = (th, fs) # descend sp m W"
          using ent by (simp add: descend_Cons)
        moreover have "(\<lambda>(t, fs). t_id t) ` set ((th, fs) # descend sp m W) = set (n_threadIds m)"
          using img ids by auto
        ultimately show ?thesis using mk
          by (simp only: invNode_sel[of sp ?Wn m] if_True simp_thms)
      qed
      have allnew: "t_id t = t_id th" if "(t, gs) \<in> set (descend sp ?new W)" for t gs
      proof -
        from that obtain g where g: "(t, g # gs) \<in> set W" "frameEntersNode sp t g ?new"
          by (auto simp: set_descend)
        from enters_marker_node[OF g(2) mknew oknew HW[OF g(1)]] show ?thesis by simp
      qed
      have dn: "descend sp ?new ?Wn = (th, fs) # descend sp ?new W"
        using enters_created[of sp th f] by (simp add: descend_Cons)
      have "(\<lambda>(t, fs). t_id t) ` set (descend sp ?new ?Wn) = {t_id th}"
        unfolding dn using allnew by auto
      moreover have "list_all (membNode sp (descend sp ?new ?Wn)) ?kids"
        unfolding dn by (rule single_thread_memb) (use allnew in auto)
      ultimately have nw: "invNode sp ?Wn (setChildren ?new ?kids)"
        using mknew by (simp add: invNode_sel)
      have "complTop sp ?Wn (nodes @ [setChildren ?new ?kids])"
        using True complTop_append[OF Cons.prems(6)] by (simp add: complTop_Cons)
      then show ?thesis unfolding create(2) using ex nw by (simp add: list_all_iff)
    next
      case False
      with create(1) have none: "\<not> list_ex (reusable f) nodes" by simp
      from Hf False have nm: "\<not> includes_str (canonicalId f) splitMarker" by simp
      have ex: "invNode sp ?Wn m" if m: "m \<in> set nodes" for m
      proof -
        have "\<not> frameEntersNode sp th f m"
          using enters_unsplit[OF False nm okn[OF m]] none m by (simp add: list_ex_iff)
        then show ?thesis using old[OF m] by (simp add: invNode_not_entered)
      qed
      have idnew: "n_id ?new = canonicalId f" using False by (simp add: newNode_id)
      have "set (descend sp ?new W) = {}"
      proof (rule ccontr)
        assume "set (descend sp ?new W) \<noteq> {}"
        then obtain t g gs where g: "(t, g # gs) \<in> set W" "frameEntersNode sp t g ?new"
          by (auto simp: set_descend)
        show False
        proof (cases "canonicalId g \<in> set sp")
          case True
          with g(2) have "n_id ?new = canonicalId g @ splitMarker @ showInt (t_id t)"
            by (simp add: frameEntersNode_def)
          with idnew nm show False using includes_str_append[of "canonicalId g" splitMarker "showInt (t_id t)"]
            by simp
        next
          case gf: False
          with g(2) have same: "frameKey f = frameKey g"
            by (simp add: frameEntersNode_def isSameFrame_frameKey)
          from Cons.prems(6) g(1) gf have "list_ex (reusable g) nodes"
            by (force simp: complTop_def list_all_iff)
          then obtain m where "m \<in> set nodes" "reusable g m" by (auto simp: list_ex_iff)
          with same have "m \<in> set nodes" "reusable f m"
            by (simp_all add: reusable_def isSameFrame_frameKey)
          with none show False by (auto simp: list_ex_iff)
        qed
      qed
      then have dn: "descend sp ?new ?Wn = [(th, fs)]"
        using enters_created[of sp th f] by (simp add: descend_Cons)
      have "complTop sp ((th, fs) # []) ?kids \<and> list_all (invNode sp ((th, fs) # [])) ?kids"
        by (rule Cons.IH[OF Hfs]) (simp_all add: distinctSiblings_def complTop_def)
      then have nw: "invNode sp ?Wn (setChildren ?new ?kids)"
        using idnew nm dn by (simp add: invNode_sel)
      have "reusable f (setChildren ?new ?kids)"
        using idnew nm by (simp add: reusable_def isSameFrame_frameKey)
      then have "complTop sp ?Wn (nodes @ [setChildren ?new ?kids])"
        using complTop_append[OF Cons.prems(6)] False by (auto simp: complTop_Cons)
      then show ?thesis unfolding create(2) using ex nw by (simp add: list_all_iff)
    qed
  next
    case (reuse before n after)
    let ?kids = "addFrames sp th fs (n_children n)"
    let ?n' = "setChildren (addThread th n) ?kids"
    from Hf reuse(1) have nm: "\<not> includes_str (canonicalId f) splitMarker" by simp
    have n_in: "n \<in> set nodes" using reuse(2) by simp
    have entn: "frameEntersNode sp th f n"
      using enters_unsplit[OF reuse(1) nm okn[OF n_in]] reuse(3) by simp
    have nmn: "\<not> includes_str (n_id n) splitMarker" using reuse(3) by (simp add: reusable_def)
    have ex: "invNode sp ?Wn m" if m: "m \<in> set before \<or> m \<in> set after" for m
    proof -
      have mn: "m \<in> set nodes" using m reuse(2) by auto
      have "\<not> reusable f m"
        using m reuse(4) distinct_after[OF Cons.prems(4)[unfolded reuse(2)] reuse(3)]
        by (auto simp: list_ex_iff)
      then have "\<not> frameEntersNode sp th f m"
        using enters_unsplit[OF reuse(1) nm okn[OF mn]] by simp
      then show ?thesis using old[OF mn] by (simp add: invNode_not_entered)
    qed
    from old[OF n_in] nmn have img: "set (n_threadIds n) = (\<lambda>(t, fs). t_id t) ` set (descend sp n W)"
      and ctop: "complTop sp (descend sp n W) (n_children n)"
      and kids: "list_all (invNode sp (descend sp n W)) (n_children n)"
      by (simp_all add: invNode_sel)
    have HW': "\<forall>(t, gs) \<in> set (descend sp n W). noMarkerUnlessSplit sp gs"
      using Cons.prems(2) by (force simp: set_descend noMarkerUnlessSplit_def)
    have s1: "forest_all nodeOk (n_children n)"
      using forest_all_mem[OF Cons.prems(3) n_in] by simp
    have s2: "distinctSiblings (n_children n)"
      and s3: "forest_all (\<lambda>n. distinctSiblings (n_children n)) (n_children n)"
      using forest_all_mem[OF Cons.prems(5) n_in] by simp_all
    have IH: "complTop sp ((th, fs) # descend sp n W) ?kids \<and>
        list_all (invNode sp ((th, fs) # descend sp n W)) ?kids"
      by (rule Cons.IH[OF Hfs HW' s1 s2 s3 ctop kids])
    have dn: "descend sp n ?Wn = (th, fs) # descend sp n W"
      using entn by (simp add: descend_Cons)
    have nw: "invNode sp ?Wn ?n'"
      using IH img nmn by (simp add: invNode_sel dn)
    have "complTop sp ?Wn (before @ n # after)"
      using Cons.prems(6) reuse(1,2,3) by (auto simp: complTop_Cons list_ex_iff)
    then have "complTop sp ?Wn (before @ ?n' # after)"
      by (rule complTop_replace) simp
    then show ?thesis unfolding reuse(5) using ex nw by (simp add: list_all_iff)
  qed
qed

lemma addFrames_nodeOk:
  assumes "noMarkerUnlessSplit sp fs" "forest_all nodeOk nodes"
  shows "forest_all nodeOk (addFrames sp th fs nodes)"
proof (rule addFrames_forest_all[OF _ _ _ assms(2)])
  fix n cs assume "nodeOk n"
  then show "nodeOk (setChildren n cs)" by (simp add: nodeOk_def)
next
  fix n f assume "nodeOk n" "reusable f n"
  then show "nodeOk (addThread th n)"
    by (simp add: nodeOk_def reusable_def) (simp add: addThread_def Let_def)
next
  fix f assume "f \<in> set fs"
  with assms(1) have "canonicalId f \<in> set sp \<or> \<not> includes_str (canonicalId f) splitMarker"
    by (simp add: noMarkerUnlessSplit_def list_all_iff)
  then show "nodeOk (addThread th (newNode (canonicalId f \<in> set sp) th f))"
    by (rule nodeOk_created)
qed

lemma invNode_membNode: "invNode sp W n \<Longrightarrow> membNode sp W n"
proof (induction n arbitrary: W)
  case (GraphNode i fr cs ids names)
  then show ?case by (auto simp: list_all_iff split: if_splits)
qed

lemma foldl_addFrames_inv:
  assumes "\<forall>t \<in> set ts. noMarkerUnlessSplit sp (t_frames t)"
    and "\<forall>(t, gs) \<in> set W. noMarkerUnlessSplit sp gs"
    and "forest_all nodeOk acc"
    and "distinctSiblings acc"
    and "forest_all (\<lambda>n. distinctSiblings (n_children n)) acc"
    and "complTop sp W acc"
    and "list_all (invNode sp W) acc"
  shows "list_all (invNode sp (rev (map (\<lambda>t. (t, t_frames t)) ts) @ W))
           (foldl (\<lambda>rootNodes thread. addFrames sp thread (t_frames thread) rootNodes) acc ts)"
  using assms
proof (induction ts arbitrary: W acc)
  case Nil
  then show ?case by simp
next
  case (Cons t ts)
  let ?acc = "addFrames sp t (t_frames t) acc"
  from Cons.prems(1) have Ht: "noMarkerUnlessSplit sp (t_frames t)"
    and Hts: "\<forall>t \<in> set ts. noMarkerUnlessSplit sp (t_frames t)" by simp_all
  have step: "complTop sp ((t, t_frames t) # W) ?acc \<and> list_all (invNode sp ((t, t_frames t) # W)) ?acc"
    by (rule addFrames_inv[OF Ht Cons.prems(2-7)])
  have HW: "\<forall>(t', gs) \<in> set ((t, t_frames t) # W). noMarkerUnlessSplit sp gs"
    using Ht Cons.prems(2) by simp
  have ok: "forest_all nodeOk ?acc" by (rule addFrames_nodeOk[OF Ht Cons.prems(3)])
  have d: "distinctSiblings ?acc \<and> forest_all (\<lambda>n. distinctSiblings (n_children n)) ?acc"
    by (rule distinctSiblings_grouped[OF Cons.prems(4,5)])
  from Cons.IH[OF Hts HW ok _ _ _ _, of ] d step show ?case by simp
qed

lemma set_threadsThrough:
  "set (threadsThrough sp ts c) =
     {t_id t |t fs. (t, fs) \<in> set (map (\<lambda>t. (t, t_frames t)) ts) \<and> passes sp t fs c}"
  by (auto simp: threadsThrough_def passesThrough_def)

text \<open>
  Membership, for inputs in which no unsplit frame has the marker inside its canonical
  id: the members of the last node of every root-to-node chain are the ids of the threads
  whose frame sequence passes through the chain. Thread ids may repeat.
\<close>

lemma membership_without_marker:
  assumes "\<forall>t \<in> set threadsData. noMarkerUnlessSplit splitNodes (t_frames t)"
    and "c \<in> set (chains (buildGraph threadsData splitNodes))"
  shows "set (n_threadIds (last c)) = set (threadsThrough splitNodes threadsData c)"
proof -
  have "list_all (invNode splitNodes (rev (map (\<lambda>t. (t, t_frames t)) threadsData) @ []))
      (buildGraph threadsData splitNodes)"
    unfolding buildGraph_def
    by (rule foldl_addFrames_inv[OF assms(1)]) (simp_all add: distinctSiblings_def complTop_def)
  then have "list_all (membNode splitNodes (rev (map (\<lambda>t. (t, t_frames t)) threadsData)))
      (buildGraph threadsData splitNodes)"
    by (simp add: list_all_iff invNode_membNode)
  from chain_membership[OF this assms(2)] show ?thesis
    by (simp add: set_threadsThrough)
qed

section \<open>Function names that contain the split marker\<close>

text \<open>
  The marker test of line 109 never rejects a real split node that would otherwise be
  found: a node with the marker in its id either has a frame whose canonical id is in the
  split set, and then no frame that is the same for \<open>isSameFrame\<close> is ever looked up, or
  it has the marker inside the canonical id of its frame. The test only ever acts on
  frames whose own text contains the marker.
\<close>

lemma marker_test_only_hits_names:
  "forest_all (\<lambda>n. includes_str (n_id n) splitMarker \<longrightarrow>
       canonicalId (n_frame n) \<in> set sp \<or> includes_str (canonicalId (n_frame n)) splitMarker)
     (buildGraph ts sp)"
proof (rule buildGraph_forest_all)
  fix th f
  show "includes_str (n_id (addThread th (newNode (canonicalId f \<in> set sp) th f))) splitMarker \<longrightarrow>
       canonicalId (n_frame (addThread th (newNode (canonicalId f \<in> set sp) th f))) \<in> set sp \<or>
       includes_str (canonicalId (n_frame (addThread th (newNode (canonicalId f \<in> set sp) th f)))) splitMarker"
    by (simp add: newNode_id)
qed simp_all

text \<open>
  Claim C6 at two threads with the same single frame, a function of a namespace called
  \<open>split\<close>, and an empty split set: the frame sequences are identical and no canonical id
  is in the split set, yet the forest has two roots with one member each. The test of
  line 109 takes the first thread's node for a split node, because its id contains the
  marker as part of the function name.
\<close>

theorem marker_in_name_is_not_merged:
  "list_all (\<lambda>t. map frameKey (t_frames t) = map frameKey (t_frames (hd markerThreads))) markerThreads \<and>
   list_all (\<lambda>t. list_all (\<lambda>f. canonicalId f \<notin> set []) (t_frames t)) markerThreads \<and>
   \<not> isChain (buildGraph markerThreads []) \<and>
   length (buildGraph markerThreads []) = 2 \<and>
   map n_threadIds (buildGraph markerThreads []) = [[1], [2]]"
  by code_simp

text \<open>
  Claim C5 at the same input: both threads pass through each of the two root chains,
  but each root has only the thread that created it as a member.
\<close>

theorem marker_in_name_membership:
  "map (\<lambda>c. (n_threadIds (last c), threadsThrough [] markerThreads c))
       (chains (buildGraph markerThreads [])) =
   [([1], [1, 2]), ([2], [1, 2])]"
  by code_simp

section \<open>Repeated invocations over one store\<close>

text \<open>The renumbering is injective from its base on, and follows the allocation counter.\<close>

lemma shiftRef_inj: "nA \<le> x \<Longrightarrow> nA \<le> y \<Longrightarrow> (shiftRef nA nB x = shiftRef nA nB y) = (x = y)"
  by (auto simp: shiftRef_def)

lemma shiftRef_Suc: "nA \<le> x \<Longrightarrow> shiftRef nA nB (Suc x) = Suc (shiftRef nA nB x)"
  by (simp add: shiftRef_def)

text \<open>Leaving the objects below a number alone is reflexive and transitive.\<close>

lemma sameBelow_refl: "sameBelow n h h"
  by (simp add: sameBelow_def)

lemma sameBelow_trans: "sameBelow n h h' \<Longrightarrow> sameBelow n h' h'' \<Longrightarrow> sameBelow n h h''"
  by (auto simp: sameBelow_def)

text \<open>What the store operations read and write.\<close>

lemma addThreadObj_fields [simp]:
  "o_children (addThreadObj th obj) = o_children obj"
  "o_id (addThreadObj th obj) = o_id obj"
  by (simp_all add: addThreadObj_def Let_def)

lemma nodeRel_addThreadObj:
  "nodeRel f a b \<Longrightarrow> nodeRel f (addThreadObj th a) (addThreadObj th b)"
  by (simp add: nodeRel_def addThreadObj_def Let_def)

lemma nodeRel_reusable: "nodeRel f a b \<Longrightarrow> reusableObj fr b = reusableObj fr a"
  by (simp add: nodeRel_def reusableObj_def)

lemma addThreadTo_fields [simp]:
  "arrays (addThreadTo n th h) = arrays h"
  "nextRef (addThreadTo n th h) = nextRef h"
  "threadObjs (addThreadTo n th h) = threadObjs h"
  "frameObjs (addThreadTo n th h) = frameObjs h"
  "nodeObjs (addThreadTo n th h) x = (if x = n then addThreadObj th (nodeObjs h n) else nodeObjs h x)"
  by (simp_all add: addThreadTo_def)

lemma createNode_fields:
  "fst (createNode b cid th fr cur h) = nextRef h"
  "nextRef (snd (createNode b cid th fr cur h)) = Suc (nextRef h)"
  "threadObjs (snd (createNode b cid th fr cur h)) = threadObjs h"
  "frameObjs (snd (createNode b cid th fr cur h)) = frameObjs h"
  "cur \<noteq> nextRef h \<Longrightarrow> arrays (snd (createNode b cid th fr cur h)) r =
     (if r = cur then arrays h cur @ [nextRef h] else if r = nextRef h then [] else arrays h r)"
  "x \<noteq> nextRef h \<Longrightarrow> nodeObjs (snd (createNode b cid th fr cur h)) x = nodeObjs h x"
  "o_children (nodeObjs (snd (createNode b cid th fr cur h)) (nextRef h)) = nextRef h"
  by (simp_all add: createNode_def newArray_def push_def Let_def)

lemma createNode_new_obj:
  "threadObjs hB t = threadObjs hA t \<Longrightarrow>
   nodeRel f (nodeObjs (snd (createNode b cid (threadObjs hA t) fr curA hA)) (nextRef hA))
             (nodeObjs (snd (createNode b cid (threadObjs hB t) fr curB hB)) (nextRef hB))
   = (nextRef hB = f (nextRef hA))"
  by (auto simp: createNode_def newArray_def push_def Let_def nodeRel_def)

text \<open>\<open>find\<close> along a renumbered array.\<close>

lemma find_map_cong:
  "(\<And>a. a \<in> set xs \<Longrightarrow> Q (f a) = P a) \<Longrightarrow> List.find Q (map f xs) = map_option f (List.find P xs)"
  by (induction xs) auto

lemma find_in_set: "List.find P xs = Some a \<Longrightarrow> a \<in> set xs"
  by (auto simp: find_Some_iff)

text \<open>Adding a thread to a node keeps the store closed, the simulation and the older objects.\<close>

lemma o_children_addThreadTo:
  "o_children (nodeObjs (addThreadTo m th h) a) = o_children (nodeObjs h a)"
  by (cases "a = m") simp_all

lemma closedFromD:
  "closedFrom n h \<Longrightarrow> n \<le> r \<Longrightarrow> r < nextRef h \<Longrightarrow> a \<in> set (arrays h r) \<Longrightarrow>
   n \<le> a \<and> a < nextRef h \<and> n \<le> o_children (nodeObjs h a) \<and> o_children (nodeObjs h a) < nextRef h"
  unfolding closedFrom_def by blast

lemma closedFrom_addThreadTo:
  assumes "closedFrom n h" shows "closedFrom n (addThreadTo m th h)"
  unfolding closedFrom_def
proof (intro allI impI)
  fix r a
  assume "n \<le> r \<and> r < nextRef (addThreadTo m th h) \<and> a \<in> set (arrays (addThreadTo m th h) r)"
  then have "n \<le> r" "r < nextRef h" "a \<in> set (arrays h r)" by (simp_all add: addThreadTo_def)
  from closedFromD[OF assms this]
  show "n \<le> a \<and> a < nextRef (addThreadTo m th h) \<and>
           n \<le> o_children (nodeObjs (addThreadTo m th h) a) \<and>
           o_children (nodeObjs (addThreadTo m th h) a) < nextRef (addThreadTo m th h)"
    unfolding o_children_addThreadTo by (simp add: addThreadTo_def)
qed

lemma simD:
  "sim nA nB hA hB \<Longrightarrow> nA \<le> r \<Longrightarrow> r < nextRef hA \<Longrightarrow>
   arrays hB (shiftRef nA nB r) = map (shiftRef nA nB) (arrays hA r)"
  "sim nA nB hA hB \<Longrightarrow> nA \<le> r \<Longrightarrow> r < nextRef hA \<Longrightarrow> a \<in> set (arrays hA r) \<Longrightarrow>
   nodeRel (shiftRef nA nB) (nodeObjs hA a) (nodeObjs hB (shiftRef nA nB a))"
  "sim nA nB hA hB \<Longrightarrow> closedFrom nA hA"
  "sim nA nB hA hB \<Longrightarrow> nA \<le> nextRef hA"
  "sim nA nB hA hB \<Longrightarrow> nextRef hB = shiftRef nA nB (nextRef hA)"
  "sim nA nB hA hB \<Longrightarrow> threadObjs hB = threadObjs hA"
  "sim nA nB hA hB \<Longrightarrow> frameObjs hB = frameObjs hA"
  unfolding sim_def by blast+

lemma simI:
  "nA \<le> nextRef hA \<Longrightarrow> nextRef hB = shiftRef nA nB (nextRef hA) \<Longrightarrow>
   threadObjs hB = threadObjs hA \<Longrightarrow> frameObjs hB = frameObjs hA \<Longrightarrow> closedFrom nA hA \<Longrightarrow>
   (\<And>r. nA \<le> r \<Longrightarrow> r < nextRef hA \<Longrightarrow> arrays hB (shiftRef nA nB r) = map (shiftRef nA nB) (arrays hA r)) \<Longrightarrow>
   (\<And>r a. nA \<le> r \<Longrightarrow> r < nextRef hA \<Longrightarrow> a \<in> set (arrays hA r) \<Longrightarrow>
       nodeRel (shiftRef nA nB) (nodeObjs hA a) (nodeObjs hB (shiftRef nA nB a))) \<Longrightarrow>
   sim nA nB hA hB"
  unfolding sim_def by blast

lemma sim_addThreadTo:
  assumes s: "sim nA nB hA hB" and n: "nA \<le> n"
  shows "sim nA nB (addThreadTo n th hA) (addThreadTo (shiftRef nA nB n) th hB)"
proof (rule simI)
  show "nA \<le> nextRef (addThreadTo n th hA)" using simD(4)[OF s] by simp
  show "nextRef (addThreadTo (shiftRef nA nB n) th hB) = shiftRef nA nB (nextRef (addThreadTo n th hA))"
    using simD(5)[OF s] by simp
  show "threadObjs (addThreadTo (shiftRef nA nB n) th hB) = threadObjs (addThreadTo n th hA)"
    using simD(6)[OF s] by simp
  show "frameObjs (addThreadTo (shiftRef nA nB n) th hB) = frameObjs (addThreadTo n th hA)"
    using simD(7)[OF s] by simp
  show "closedFrom nA (addThreadTo n th hA)"
    by (rule closedFrom_addThreadTo[OF simD(3)[OF s]])
next
  fix r assume "nA \<le> r" "r < nextRef (addThreadTo n th hA)"
  then show "arrays (addThreadTo (shiftRef nA nB n) th hB) (shiftRef nA nB r) =
      map (shiftRef nA nB) (arrays (addThreadTo n th hA) r)"
    using simD(1)[OF s, of r] by simp
next
  fix r a assume r: "nA \<le> r" "r < nextRef (addThreadTo n th hA)"
    and a: "a \<in> set (arrays (addThreadTo n th hA) r)"
  then have r': "r < nextRef hA" and a': "a \<in> set (arrays hA r)" by simp_all
  from closedFromD[OF simD(3)[OF s] r(1) r' a'] have "nA \<le> a" by simp
  then have e: "(shiftRef nA nB a = shiftRef nA nB n) = (a = n)" using n by (simp add: shiftRef_inj)
  have rel: "nodeRel (shiftRef nA nB) (nodeObjs hA a) (nodeObjs hB (shiftRef nA nB a))"
    by (rule simD(2)[OF s r(1) r' a'])
  show "nodeRel (shiftRef nA nB) (nodeObjs (addThreadTo n th hA) a)
      (nodeObjs (addThreadTo (shiftRef nA nB n) th hB) (shiftRef nA nB a))"
  proof (cases "a = n")
    case True
    then show ?thesis using rel by (simp add: nodeRel_addThreadObj)
  next
    case False
    then show ?thesis using rel e by simp
  qed
qed

lemma sameBelow_addThreadTo: "n \<le> m \<Longrightarrow> sameBelow n h (addThreadTo m th h)"
  by (simp add: sameBelow_def)

text \<open>So does creating a node, which writes the new node, its array and the array pushed onto.\<close>

lemma arrays_createNode:
  "cur \<noteq> nextRef h \<Longrightarrow> arrays (snd (createNode b cid th fr cur h)) cur = arrays h cur @ [nextRef h]"
  "cur \<noteq> nextRef h \<Longrightarrow> arrays (snd (createNode b cid th fr cur h)) (nextRef h) = []"
  "r \<noteq> cur \<Longrightarrow> r \<noteq> nextRef h \<Longrightarrow> arrays (snd (createNode b cid th fr cur h)) r = arrays h r"
  by (simp_all add: createNode_def newArray_def push_def Let_def)

lemma closedFrom_createNode:
  assumes cl: "closedFrom n h" and c: "n \<le> cur" "cur < nextRef h"
  shows "closedFrom n (snd (createNode b cid th fr cur h))"
  unfolding closedFrom_def
proof (intro allI impI)
  fix r a
  let ?h' = "snd (createNode b cid th fr cur h)"
  assume asm: "n \<le> r \<and> r < nextRef ?h' \<and> a \<in> set (arrays ?h' r)"
  have ne: "cur \<noteq> nextRef h" using c by simp
  have nle: "n \<le> nextRef h" using c by simp
  have nr: "nextRef ?h' = Suc (nextRef h)" by (rule createNode_fields(2))
  have new: "n \<le> nextRef h \<and> nextRef h < nextRef ?h' \<and> n \<le> o_children (nodeObjs ?h' (nextRef h)) \<and>
        o_children (nodeObjs ?h' (nextRef h)) < nextRef ?h'"
    using nle by (simp add: createNode_fields(2,7))
  have old: "n \<le> a \<and> a < nextRef ?h' \<and> n \<le> o_children (nodeObjs ?h' a) \<and>
        o_children (nodeObjs ?h' a) < nextRef ?h'"
    if "r < nextRef h" "a \<in> set (arrays h r)"
  proof -
    from asm have "n \<le> r" by simp
    from closedFromD[OF cl this that]
    have d: "n \<le> a \<and> a < nextRef h \<and> n \<le> o_children (nodeObjs h a) \<and> o_children (nodeObjs h a) < nextRef h" .
    then have "a \<noteq> nextRef h" by simp
    then have "nodeObjs ?h' a = nodeObjs h a" by (rule createNode_fields(6))
    then show ?thesis using d nr by simp
  qed
  show "n \<le> a \<and> a < nextRef ?h' \<and> n \<le> o_children (nodeObjs ?h' a) \<and>
        o_children (nodeObjs ?h' a) < nextRef ?h'"
  proof (cases "r = nextRef h")
    case True
    then show ?thesis using asm arrays_createNode(2)[OF ne, of b cid th fr] by simp
  next
    case rn: False
    then have rl: "r < nextRef h" using asm nr by simp
    show ?thesis
    proof (cases "r = cur")
      case True
      then have "a \<in> set (arrays h r) \<or> a = nextRef h"
        using asm arrays_createNode(1)[OF ne, of b cid th fr] by auto
      then show ?thesis using old[OF rl] new by blast
    next
      case False
      then have "a \<in> set (arrays h r)"
        using asm arrays_createNode(3)[OF False rn, of b cid th fr] by simp
      then show ?thesis by (rule old[OF rl])
    qed
  qed
qed

lemma sameBelow_createNode:
  "n \<le> cur \<Longrightarrow> cur < nextRef h \<Longrightarrow> sameBelow n h (snd (createNode b cid th fr cur h))"
  by (simp add: sameBelow_def createNode_fields(2,3,4,6) arrays_createNode(3))

lemma sim_createNode:
  assumes s: "sim nA nB hA hB" and c: "nA \<le> cur" "cur < nextRef hA"
  shows "sim nA nB (snd (createNode b cid (threadObjs hA t) fr cur hA))
           (snd (createNode b cid (threadObjs hB t) fr (shiftRef nA nB cur) hB))"
proof -
  let ?f = "shiftRef nA nB"
  let ?A = "snd (createNode b cid (threadObjs hA t) fr cur hA)"
  let ?B = "snd (createNode b cid (threadObjs hB t) fr (?f cur) hB)"
  note cl = simD(3)[OF s] and nle = simD(4)[OF s] and nb = simD(5)[OF s]
    and th = simD(6)[OF s] and frs = simD(7)[OF s]
  have neA: "cur \<noteq> nextRef hA" using c by simp
  have neB: "?f cur \<noteq> nextRef hB" using c nle nb by (simp add: shiftRef_inj)
  have nrA: "nextRef ?A = Suc (nextRef hA)" by (rule createNode_fields(2))
  have nrB: "nextRef ?B = Suc (nextRef hB)" by (rule createNode_fields(2))
  have new: "nodeRel ?f (nodeObjs ?A (nextRef hA)) (nodeObjs ?B (?f (nextRef hA)))"
    using createNode_new_obj[of hB t hA ?f b cid fr cur "?f cur"] th nb by simp
  have keep: "nodeRel ?f (nodeObjs ?A a) (nodeObjs ?B (?f a))"
    if r: "nA \<le> r" "r < nextRef hA" and a: "a \<in> set (arrays hA r)" for r a
  proof -
    from closedFromD[OF cl r a] have al: "nA \<le> a" "a < nextRef hA" by simp_all
    then have "a \<noteq> nextRef hA" by simp
    then have 1: "nodeObjs ?A a = nodeObjs hA a" by (rule createNode_fields(6))
    have "?f a \<noteq> nextRef hB" using al nle nb by (simp add: shiftRef_inj)
    then have 2: "nodeObjs ?B (?f a) = nodeObjs hB (?f a)" by (rule createNode_fields(6))
    show ?thesis using simD(2)[OF s r a] 1 2 by simp
  qed
  show ?thesis
  proof (rule simI)
    show "nA \<le> nextRef ?A" using nle nrA by simp
    show "nextRef ?B = ?f (nextRef ?A)" using nb nle nrA nrB by (simp add: shiftRef_Suc)
    show "threadObjs ?B = threadObjs ?A" using th by (simp add: createNode_fields(3))
    show "frameObjs ?B = frameObjs ?A" using frs by (simp add: createNode_fields(4))
    show "closedFrom nA ?A" by (rule closedFrom_createNode[OF cl c])
  next
    fix r assume r: "nA \<le> r" "r < nextRef ?A"
    show "arrays ?B (?f r) = map ?f (arrays ?A r)"
    proof (cases "r = nextRef hA")
      case True
      then show ?thesis
        using arrays_createNode(2)[OF neA, of b cid "threadObjs hA t" fr]
          arrays_createNode(2)[OF neB, of b cid "threadObjs hB t" fr] nb by simp
    next
      case rn: False
      then have rl: "r < nextRef hA" using r nrA by simp
      have fn: "?f r \<noteq> nextRef hB" using r(1) rl nle nb by (simp add: shiftRef_inj)
      show ?thesis
      proof (cases "r = cur")
        case True
        then show ?thesis
          using arrays_createNode(1)[OF neA, of b cid "threadObjs hA t" fr]
            arrays_createNode(1)[OF neB, of b cid "threadObjs hB t" fr] nb
            simD(1)[OF s c] by simp
      next
        case False
        then have "?f r \<noteq> ?f cur" using r(1) c(1) by (simp add: shiftRef_inj)
        then show ?thesis
          using arrays_createNode(3)[OF False rn, of b cid "threadObjs hA t" fr]
            arrays_createNode(3)[OF _ fn, of "?f cur" b cid "threadObjs hB t" fr]
            simD(1)[OF s r(1) rl] by simp
      qed
    qed
  next
    fix r a assume r: "nA \<le> r" "r < nextRef ?A" and a: "a \<in> set (arrays ?A r)"
    show "nodeRel ?f (nodeObjs ?A a) (nodeObjs ?B (?f a))"
    proof (cases "r = nextRef hA")
      case True
      then show ?thesis using a arrays_createNode(2)[OF neA, of b cid "threadObjs hA t" fr] by simp
    next
      case rn: False
      then have rl: "r < nextRef hA" using r nrA by simp
      show ?thesis
      proof (cases "r = cur")
        case True
        then have "a \<in> set (arrays hA r) \<or> a = nextRef hA"
          using a arrays_createNode(1)[OF neA, of b cid "threadObjs hA t" fr] by auto
        then show ?thesis using keep[OF r(1) rl] new by blast
      next
        case False
        then have "a \<in> set (arrays hA r)"
          using a arrays_createNode(3)[OF False rn, of b cid "threadObjs hA t" fr] by simp
        then show ?thesis by (rule keep[OF r(1) rl])
      qed
    qed
  qed
qed

text \<open>
  One frame: from two stores that simulate each other, with the cursors on corresponding
  arrays, the body of the inner loop finds corresponding nodes or creates them, and
  leaves corresponding cursors.
\<close>

lemma processFrame_eq:
  "processFrame sp t (h, cur) fr =
     (case findReusable (canonicalId (frameObjs h fr) \<in> set sp) (frameObjs h fr) cur h of
        None \<Rightarrow>
          (addThreadTo (nextRef h) (threadObjs h t)
             (snd (createNode (canonicalId (frameObjs h fr) \<in> set sp) (canonicalId (frameObjs h fr))
                     (threadObjs h t) (frameObjs h fr) cur h)),
           nextRef h)
      | Some n \<Rightarrow> (addThreadTo n (threadObjs h t) h, o_children (nodeObjs h n)))"
  by (simp add: Let_def case_prod_beta createNode_fields(1,7) o_children_addThreadTo
      split: option.split)

lemma findReusable_sim:
  assumes s: "sim nA nB hA hB" and c: "nA \<le> cur" "cur < nextRef hA"
  shows "findReusable b frame (shiftRef nA nB cur) hB = map_option (shiftRef nA nB) (findReusable b frame cur hA)"
proof -
  have "List.find (\<lambda>n. reusableObj frame (nodeObjs hB n)) (map (shiftRef nA nB) (arrays hA cur)) =
        map_option (shiftRef nA nB) (List.find (\<lambda>n. reusableObj frame (nodeObjs hA n)) (arrays hA cur))"
    by (rule find_map_cong) (rule nodeRel_reusable[OF simD(2)[OF s c]])
  then show ?thesis using simD(1)[OF s c] by (simp add: findReusable_def)
qed

lemma findReusable_in_set: "findReusable b frame cur h = Some n \<Longrightarrow> n \<in> set (arrays h cur)"
  by (simp add: findReusable_def find_in_set split: if_splits)

lemma processFrame_sim:
  assumes s: "sim nA nB hA hB" and c: "nA \<le> cur" "cur < nextRef hA"
  shows "sim nA nB (fst (processFrame sp t (hA, cur) fr)) (fst (processFrame sp t (hB, shiftRef nA nB cur) fr)) \<and>
         snd (processFrame sp t (hB, shiftRef nA nB cur) fr) = shiftRef nA nB (snd (processFrame sp t (hA, cur) fr)) \<and>
         nA \<le> snd (processFrame sp t (hA, cur) fr) \<and>
         snd (processFrame sp t (hA, cur) fr) < nextRef (fst (processFrame sp t (hA, cur) fr)) \<and>
         sameBelow nA hA (fst (processFrame sp t (hA, cur) fr))"
proof -
  let ?f = "shiftRef nA nB"
  let ?b = "canonicalId (frameObjs hA fr) \<in> set sp"
  note cl = simD(3)[OF s] and nle = simD(4)[OF s] and nb = simD(5)[OF s]
    and th = simD(6)[OF s] and frs = simD(7)[OF s]
  have fB: "findReusable ?b (frameObjs hA fr) (?f cur) hB =
      map_option ?f (findReusable ?b (frameObjs hA fr) cur hA)"
    by (rule findReusable_sim[OF s c])
  show ?thesis
  proof (cases "findReusable ?b (frameObjs hA fr) cur hA")
    case None
    let ?cA = "snd (createNode ?b (canonicalId (frameObjs hA fr)) (threadObjs hA t) (frameObjs hA fr) cur hA)"
    let ?cB = "snd (createNode ?b (canonicalId (frameObjs hA fr)) (threadObjs hB t) (frameObjs hA fr) (?f cur) hB)"
    have pA: "processFrame sp t (hA, cur) fr = (addThreadTo (nextRef hA) (threadObjs hA t) ?cA, nextRef hA)"
      using None by (simp only: processFrame_eq option.case)
    have pB: "processFrame sp t (hB, ?f cur) fr = (addThreadTo (nextRef hB) (threadObjs hB t) ?cB, nextRef hB)"
      using None fB by (simp only: processFrame_eq frs option.case option.map)
    have 1: "sim nA nB ?cA ?cB" by (rule sim_createNode[OF s c])
    have "nA \<le> nextRef hA" by (rule nle)
    from sim_addThreadTo[OF 1 this, of "threadObjs hA t"]
    have 2: "sim nA nB (addThreadTo (nextRef hA) (threadObjs hA t) ?cA)
        (addThreadTo (nextRef hB) (threadObjs hB t) ?cB)" using nb th by simp
    have 3: "sameBelow nA hA (addThreadTo (nextRef hA) (threadObjs hA t) ?cA)"
      by (rule sameBelow_trans[OF sameBelow_createNode[OF c] sameBelow_addThreadTo[OF nle]])
    show ?thesis unfolding pA pB using 2 3 nb nle by (simp add: createNode_fields(2))
  next
    case (Some n)
    have pA: "processFrame sp t (hA, cur) fr = (addThreadTo n (threadObjs hA t) hA, o_children (nodeObjs hA n))"
      using Some by (simp only: processFrame_eq option.case)
    have pB: "processFrame sp t (hB, ?f cur) fr = (addThreadTo (?f n) (threadObjs hB t) hB, o_children (nodeObjs hB (?f n)))"
      using Some fB by (simp only: processFrame_eq frs option.case option.map)
    have n: "n \<in> set (arrays hA cur)" by (rule findReusable_in_set[OF Some])
    from closedFromD[OF cl c n]
    have r: "nA \<le> n" "nA \<le> o_children (nodeObjs hA n)" "o_children (nodeObjs hA n) < nextRef hA"
      by simp_all
    have ch: "o_children (nodeObjs hB (?f n)) = ?f (o_children (nodeObjs hA n))"
      using simD(2)[OF s c n] by (simp add: nodeRel_def)
    from sim_addThreadTo[OF s r(1), of "threadObjs hA t"]
    have 2: "sim nA nB (addThreadTo n (threadObjs hA t) hA) (addThreadTo (?f n) (threadObjs hB t) hB)"
      using th by simp
    have 3: "sameBelow nA hA (addThreadTo n (threadObjs hA t) hA)"
      by (rule sameBelow_addThreadTo[OF r(1)])
    show ?thesis unfolding pA pB using 2 3 r ch by simp
  qed
qed

text \<open>The loops over the frames of a thread and over the threads, and the whole function.\<close>

lemma frames_sim:
  "sim nA nB hA hB \<Longrightarrow> nA \<le> cur \<Longrightarrow> cur < nextRef hA \<Longrightarrow>
   sim nA nB (fst (foldl (processFrame sp t) (hA, cur) frs))
             (fst (foldl (processFrame sp t) (hB, shiftRef nA nB cur) frs)) \<and>
   sameBelow nA hA (fst (foldl (processFrame sp t) (hA, cur) frs))"
proof (induction frs arbitrary: hA hB cur)
  case Nil
  then show ?case by (simp add: sameBelow_refl)
next
  case (Cons fr frs)
  let ?A = "processFrame sp t (hA, cur) fr" and ?B = "processFrame sp t (hB, shiftRef nA nB cur) fr"
  from processFrame_sim[OF Cons.prems, of sp t fr]
  have st: "sim nA nB (fst ?A) (fst ?B)" "snd ?B = shiftRef nA nB (snd ?A)" "nA \<le> snd ?A"
    "snd ?A < nextRef (fst ?A)" "sameBelow nA hA (fst ?A)" by blast+
  from Cons.IH[OF st(1,3,4)]
  have ih: "sim nA nB (fst (foldl (processFrame sp t) (fst ?A, snd ?A) frs))
             (fst (foldl (processFrame sp t) (fst ?B, shiftRef nA nB (snd ?A)) frs))"
    "sameBelow nA (fst ?A) (fst (foldl (processFrame sp t) (fst ?A, snd ?A) frs))" by blast+
  have eA: "foldl (processFrame sp t) (hA, cur) (fr # frs) = foldl (processFrame sp t) (fst ?A, snd ?A) frs"
    by simp
  have eB: "foldl (processFrame sp t) (hB, shiftRef nA nB cur) (fr # frs) =
      foldl (processFrame sp t) (fst ?B, shiftRef nA nB (snd ?A)) frs"
    using st(2) by (simp del: processFrame.simps) (metis prod.collapse)
  show ?case unfolding eA eB using ih sameBelow_trans[OF st(5) ih(2)] by blast
qed

lemma threadLoop_sim:
  assumes s: "sim nA nB hA hB" and c: "nA \<le> root" "root < nextRef hA"
  shows "sim nA nB (threadLoop sp root hA t) (threadLoop sp (shiftRef nA nB root) hB t) \<and>
         sameBelow nA hA (threadLoop sp root hA t)"
  using frames_sim[OF s c, of sp t "r_frames (threadObjs hA t)"] simD(6)[OF s]
  by (simp add: threadLoop_def)

lemma threads_sim:
  "sim nA nB hA hB \<Longrightarrow> nA \<le> root \<Longrightarrow> root < nextRef hA \<Longrightarrow>
   sim nA nB (foldl (threadLoop sp root) hA ts) (foldl (threadLoop sp (shiftRef nA nB root)) hB ts) \<and>
   sameBelow nA hA (foldl (threadLoop sp root) hA ts)"
proof (induction ts arbitrary: hA hB)
  case Nil
  then show ?case by (simp add: sameBelow_refl)
next
  case (Cons t ts)
  from threadLoop_sim[OF Cons.prems, of sp t]
  have st: "sim nA nB (threadLoop sp root hA t) (threadLoop sp (shiftRef nA nB root) hB t)"
    "sameBelow nA hA (threadLoop sp root hA t)" by blast+
  from st(2) Cons.prems(3) have "root < nextRef (threadLoop sp root hA t)"
    by (simp add: sameBelow_def)
  from Cons.IH[OF st(1) Cons.prems(2) this]
  show ?case using sameBelow_trans[OF st(2)] by simp
qed

lemma sim_newArray:
  assumes "threadObjs h' = threadObjs h" "frameObjs h' = frameObjs h"
  shows "sim (nextRef h) (nextRef h') (snd (newArray h)) (snd (newArray h'))"
proof (rule simI)
  show "closedFrom (nextRef h) (snd (newArray h))"
    by (auto simp: closedFrom_def newArray_def less_Suc_eq)
next
  fix r assume "nextRef h \<le> r" "r < nextRef (snd (newArray h))"
  then have "r = nextRef h" by (simp add: newArray_def)
  then show "arrays (snd (newArray h')) (shiftRef (nextRef h) (nextRef h') r) =
      map (shiftRef (nextRef h) (nextRef h')) (arrays (snd (newArray h)) r)"
    by (simp add: newArray_def shiftRef_def)
next
  fix r a assume "nextRef h \<le> r" "r < nextRef (snd (newArray h))" "a \<in> set (arrays (snd (newArray h)) r)"
  then have "r = nextRef h \<and> a \<in> set (arrays (snd (newArray h)) r)" by (simp add: newArray_def)
  then have False by (auto simp: newArray_def)
  then show "nodeRel (shiftRef (nextRef h) (nextRef h')) (nodeObjs (snd (newArray h)) a)
      (nodeObjs (snd (newArray h')) (shiftRef (nextRef h) (nextRef h') a))" ..
qed (use assms in \<open>simp_all add: newArray_def shiftRef_def\<close>)

lemma buildGraphS_sim:
  assumes "threadObjs h' = threadObjs h" "frameObjs h' = frameObjs h"
  shows "sim (nextRef h) (nextRef h') (snd (buildGraphS ts sp h)) (snd (buildGraphS ts sp h')) \<and>
         sameBelow (nextRef h) h (snd (buildGraphS ts sp h)) \<and>
         fst (buildGraphS ts sp h) = nextRef h \<and> nextRef h < nextRef (snd (buildGraphS ts sp h))"
proof -
  have 0: "sameBelow (nextRef h) h (snd (newArray h))"
    by (simp add: sameBelow_def newArray_def)
  have 1: "nextRef h < nextRef (snd (newArray h))" by (simp add: newArray_def)
  have 2: "shiftRef (nextRef h) (nextRef h') (nextRef h) = nextRef h'" by (simp add: shiftRef_def)
  from threads_sim[OF sim_newArray[OF assms] order_refl 1, of sp ts]
  have 3: "sim (nextRef h) (nextRef h') (foldl (threadLoop sp (nextRef h)) (snd (newArray h)) ts)
      (foldl (threadLoop sp (nextRef h')) (snd (newArray h')) ts)"
    "sameBelow (nextRef h) (snd (newArray h)) (foldl (threadLoop sp (nextRef h)) (snd (newArray h)) ts)"
    unfolding 2 by blast+
  have e: "buildGraphS ts sp x = (nextRef x, foldl (threadLoop sp (nextRef x)) (snd (newArray x)) ts)" for x
    by (simp add: buildGraphS_def newArray_def)
  from 3(2) 1 have 4: "nextRef h < nextRef (foldl (threadLoop sp (nextRef h)) (snd (newArray h)) ts)"
    by (simp add: sameBelow_def)
  show ?thesis unfolding e using 3 sameBelow_trans[OF 0 3(2)] 4 by simp
qed

text \<open>
  Stores that simulate each other read the same from corresponding arrays, and a store
  that left the older objects alone reads the same from an older array of a closed store.
\<close>

lemma readNode_sim:
  "sim nA nB hA hB \<Longrightarrow> nA \<le> r \<Longrightarrow> r < nextRef hA \<Longrightarrow> a \<in> set (arrays hA r) \<Longrightarrow>
   readNode k hB (shiftRef nA nB a) = readNode k hA a"
proof (induction k arbitrary: r a)
  case 0
  from simD(2)[OF 0] show ?case by (simp add: nodeRel_def)
next
  case (Suc k)
  note rel = simD(2)[OF Suc.prems]
  from closedFromD[OF simD(3)[OF Suc.prems(1)] Suc.prems(2-4)]
  have c: "nA \<le> o_children (nodeObjs hA a)" "o_children (nodeObjs hA a) < nextRef hA" by simp_all
  have ch: "o_children (nodeObjs hB (shiftRef nA nB a)) = shiftRef nA nB (o_children (nodeObjs hA a))"
    using rel by (simp add: nodeRel_def)
  have "map (readNode k hB) (arrays hB (shiftRef nA nB (o_children (nodeObjs hA a)))) =
        map (readNode k hA) (arrays hA (o_children (nodeObjs hA a)))"
    unfolding simD(1)[OF Suc.prems(1) c] map_map
    by (rule map_cong[OF refl]) (simp add: Suc.IH[OF Suc.prems(1) c])
  then show ?case using rel ch by (simp add: nodeRel_def)
qed

lemma readForest_sim:
  assumes "sim nA nB hA hB" "nA \<le> r" "r < nextRef hA"
  shows "readForest k hB (shiftRef nA nB r) = readForest k hA r"
  unfolding readForest_def simD(1)[OF assms] map_map
  by (rule map_cong[OF refl]) (simp add: readNode_sim[OF assms])

lemma readNode_sameBelow:
  "closedFrom n h \<Longrightarrow> sameBelow (nextRef h) h h' \<Longrightarrow> n \<le> r \<Longrightarrow> r < nextRef h \<Longrightarrow>
   a \<in> set (arrays h r) \<Longrightarrow> readNode k h' a = readNode k h a"
proof (induction k arbitrary: r a)
  case 0
  from closedFromD[OF 0(1,3,4,5)] have "a < nextRef h" by simp
  with 0(2) show ?case by (simp add: sameBelow_def)
next
  case (Suc k)
  from closedFromD[OF Suc.prems(1,3,4,5)]
  have c: "a < nextRef h" "n \<le> o_children (nodeObjs h a)" "o_children (nodeObjs h a) < nextRef h"
    by simp_all
  from c(1) Suc.prems(2) have e: "nodeObjs h' a = nodeObjs h a" by (simp add: sameBelow_def)
  from c(3) Suc.prems(2) have e2: "arrays h' (o_children (nodeObjs h a)) = arrays h (o_children (nodeObjs h a))"
    by (simp add: sameBelow_def)
  have "map (readNode k h') (arrays h (o_children (nodeObjs h a))) =
        map (readNode k h) (arrays h (o_children (nodeObjs h a)))"
    by (rule map_cong[OF refl]) (rule Suc.IH[OF Suc.prems(1,2) c(2,3)])
  then show ?case using e e2 by simp
qed

lemma readForest_sameBelow:
  assumes "closedFrom n h" "sameBelow (nextRef h) h h'" "n \<le> r" "r < nextRef h"
  shows "readForest k h' r = readForest k h r"
proof -
  from assms(2,4) have "arrays h' r = arrays h r" by (simp add: sameBelow_def)
  moreover have "map (readNode k h') (arrays h r) = map (readNode k h) (arrays h r)"
    by (rule map_cong[OF refl]) (rule readNode_sameBelow[OF assms])
  ultimately show ?thesis unfolding readForest_def by simp
qed

text \<open>
  On these two threads the forest read from the store is the forest that the functional
  embedding \<open>buildGraph\<close> computes.
\<close>

lemma buildGraphS_tinyThreads:
  "readForest 1 (snd (buildGraphS [0, 1] [] tinyStore)) (fst (buildGraphS [0, 1] [] tinyStore)) =
     buildGraph tinyThreads []"
  by code_simp

text \<open>
  Claim C8: two invocations of \<open>buildGraph\<close> with the same arguments yield structurally
  identical forests. The invocations run \<open>buildGraphS\<close> over a store, so that what one of
  them leaves behind is there when the other starts. First, the forest read from the
  returned array, at every depth \<open>k\<close> (node ids, frames, shapes, membership lists), is the
  same from any two stores that hold the same thread and frame objects, whichever nodes
  and arrays either of them holds besides and wherever its allocation counter stands:
  nothing but the arguments is read. Second, when the function is invoked again in the
  store the first invocation left, on the same arguments, it returns a new array, the
  forest read from it is the forest the first invocation returned, and the first forest
  still reads as it did. Third, an invocation leaves the thread and frame objects and
  every node and array that existed before as they were.
\<close>

theorem buildGraphS_deterministic:
  "(threadObjs h' = threadObjs h \<and> frameObjs h' = frameObjs h \<longrightarrow>
      readForest k (snd (buildGraphS ts sp h')) (fst (buildGraphS ts sp h')) =
      readForest k (snd (buildGraphS ts sp h)) (fst (buildGraphS ts sp h))) \<and>
   (let (r1, h1) = buildGraphS ts sp h; (r2, h2) = buildGraphS ts sp h1
    in r2 \<noteq> r1 \<and> readForest k h2 r2 = readForest k h1 r1 \<and>
       readForest k h2 r1 = readForest k h1 r1) \<and>
   sameBelow (nextRef h) h (snd (buildGraphS ts sp h))"
proof -
  have part1: "readForest k (snd (buildGraphS ts sp y)) (fst (buildGraphS ts sp y)) =
      readForest k (snd (buildGraphS ts sp x)) (fst (buildGraphS ts sp x))"
    if eq: "threadObjs y = threadObjs x" "frameObjs y = frameObjs x" for x y
  proof -
    from buildGraphS_sim[OF eq, of ts sp]
    have s: "sim (nextRef x) (nextRef y) (snd (buildGraphS ts sp x)) (snd (buildGraphS ts sp y))"
      and r: "fst (buildGraphS ts sp x) = nextRef x" "nextRef x < nextRef (snd (buildGraphS ts sp x))"
      by blast+
    from buildGraphS_sim[OF refl refl, of y ts sp]
    have r': "fst (buildGraphS ts sp y) = nextRef y" by blast
    from readForest_sim[OF s order_refl r(2), of k] show ?thesis
      unfolding r r' by (simp add: shiftRef_def)
  qed
  let ?h1 = "snd (buildGraphS ts sp h)" and ?r1 = "fst (buildGraphS ts sp h)"
  let ?h2 = "snd (buildGraphS ts sp ?h1)" and ?r2 = "fst (buildGraphS ts sp ?h1)"
  from buildGraphS_sim[OF refl refl, of h ts sp]
  have 1: "sim (nextRef h) (nextRef h) ?h1 ?h1" "sameBelow (nextRef h) h ?h1"
    "?r1 = nextRef h" "nextRef h < nextRef ?h1" by blast+
  from buildGraphS_sim[OF refl refl, of ?h1 ts sp]
  have 2: "sameBelow (nextRef ?h1) ?h1 ?h2" "?r2 = nextRef ?h1" by blast+
  have eq: "threadObjs ?h1 = threadObjs h" "frameObjs ?h1 = frameObjs h"
    using 1(2) by (simp_all add: sameBelow_def)
  have a: "?r2 \<noteq> ?r1" using 1(3,4) 2(2) by simp
  have b: "readForest k ?h2 ?r2 = readForest k ?h1 ?r1" by (rule part1[OF eq])
  have c: "readForest k ?h2 ?r1 = readForest k ?h1 ?r1"
    unfolding 1(3) by (rule readForest_sameBelow[OF simD(3)[OF 1(1)] 2(1) order_refl 1(4)])
  have d: "threadObjs h' = threadObjs h \<and> frameObjs h' = frameObjs h \<longrightarrow>
      readForest k (snd (buildGraphS ts sp h')) (fst (buildGraphS ts sp h')) =
      readForest k (snd (buildGraphS ts sp h)) (fst (buildGraphS ts sp h))"
    using part1[of h' h] by blast
  show ?thesis using d a b c 1(2) by (simp add: case_prod_beta)
qed

theorem buildGraphS_deterministic_witness:
  "threadObjs usedStore = threadObjs tinyStore \<and> frameObjs usedStore = frameObjs tinyStore \<and>
   nextRef usedStore \<noteq> nextRef tinyStore \<and> arrays usedStore 0 \<noteq> arrays tinyStore 0 \<and>
   readForest 1 (snd (buildGraphS [0, 1] [] usedStore)) (fst (buildGraphS [0, 1] [] usedStore)) =
     buildGraph tinyThreads [] \<and>
   arrays (snd (buildGraphS [0, 1] [] usedStore)) 0 = [1]"
proof -
  have e: "threadObjs usedStore = threadObjs tinyStore" "frameObjs usedStore = frameObjs tinyStore"
    "nextRef usedStore = 2" "arrays usedStore 0 = [1]"
    by (simp_all add: usedStore_def)
  have t: "nextRef tinyStore = 0" "arrays tinyStore 0 = []" by code_simp+
  from buildGraphS_deterministic[of usedStore tinyStore 1 "[0, 1]" "[]"] e buildGraphS_tinyThreads
  have 1: "readForest 1 (snd (buildGraphS [0, 1] [] usedStore)) (fst (buildGraphS [0, 1] [] usedStore)) =
     buildGraph tinyThreads []" by simp
  from buildGraphS_deterministic[of usedStore usedStore 1 "[0, 1]" "[]"] e
  have 2: "arrays (snd (buildGraphS [0, 1] [] usedStore)) 0 = [1]" by (simp add: sameBelow_def)
  show ?thesis using e t 1 2 by simp
qed

end
